theory Spec2Isabelle
  imports Main "HOL-Library.Multiset" "HOL-Library.Sublist" "HOL-Library.Signed_Division"
begin

section \<open>Errors and panics\<close>

text \<open>
  Go errors are values.  The package builds its own with \<^verbatim>\<open>fmt.Errorf\<close> and
  \<^verbatim>\<open>errors.Errorf\<close> (a message) and wraps errors of its collaborators with
  \<^verbatim>\<open>errors.Trace\<close>.  A run-time panic is a different thing: it unwinds the goroutine
  it occurs in and, unrecovered, ends the process.
\<close>

datatype error = Errorf string | Trace error

datatype panic = DivideByZero | NilFuncCall | IndexOutOfRange

section \<open>Query types (cetest.go, lines 42-85)\<close>

text \<open>
  \<^verbatim>\<open>type QueryType int\<close> with ten constants numbered by \<^verbatim>\<open>iota\<close>.
\<close>

type_synonym QueryType = int

definition QTSingleColPointQuery :: QueryType where "QTSingleColPointQuery = 0"
definition QTSingleColRangeQuery :: QueryType where "QTSingleColRangeQuery = 1"
definition QTMultiColsPointQuery :: QueryType where "QTMultiColsPointQuery = 2"
definition QTMultiColsRangeQueryEQPrefix :: QueryType where "QTMultiColsRangeQueryEQPrefix = 3"
definition QTMultiColsRangeQuery :: QueryType where "QTMultiColsRangeQuery = 4"
definition QTMCVPointQuery :: QueryType where "QTMCVPointQuery = 5"
definition QTLCVPointQuery :: QueryType where "QTLCVPointQuery = 6"
definition QTJoinEQ :: QueryType where "QTJoinEQ = 7"
definition QTJoinNonEQ :: QueryType where "QTJoinNonEQ = 8"
definition QTGroup :: QueryType where "QTGroup = 9"

text \<open>
  \<^verbatim>\<open>qtNameMap\<close> is a Go map literal; its entries are listed here in the order of the
  literal.  The keys are pairwise different, so the list is the map.
\<close>

definition qtNameMap :: "(QueryType \<times> string) list" where
  "qtNameMap =
    [(QTSingleColPointQuery, ''single-col-point-query''),
     (QTSingleColRangeQuery, ''single-col-range-query''),
     (QTMultiColsPointQuery, ''multi-cols-point-query''),
     (QTMultiColsRangeQueryEQPrefix, ''multi-cols-range-query-eq-prefix''),
     (QTMultiColsRangeQuery, ''multi-cols-range-query''),
     (QTMCVPointQuery, ''most-common-value-point-query''),
     (QTLCVPointQuery, ''least-common-value-point-query''),
     (QTJoinEQ, ''join-eq''),
     (QTJoinNonEQ, ''join-non-eq''),
     (QTGroup, ''group'')]"

text \<open>
  \<^verbatim>\<open>func (qt QueryType) String() string { return qtNameMap[qt] }\<close>: a key that is
  not in a Go map reads as the zero value, the empty string.
\<close>

definition String_qt :: "QueryType \<Rightarrow> string" where
  "String_qt qt = (case map_of qtNameMap qt of Some v \<Rightarrow> v | None \<Rightarrow> [])"

text \<open>
  \<^verbatim>\<open>UnmarshalText\<close> ranges over \<^verbatim>\<open>qtNameMap\<close> and returns at the first entry whose
  name is the text.  Go leaves the iteration order of a map open, so the order the entries
  are visited in is a parameter: any list with the entries of \<^const>\<open>qtNameMap\<close>.
  \<^verbatim>\<open>*qt = k; return nil\<close> is the result \<open>Inr k\<close>.
\<close>

fun UnmarshalText :: "(QueryType \<times> string) list \<Rightarrow> string \<Rightarrow> error + QueryType" where
  "UnmarshalText [] text = Inl (Errorf (''unknown query-type='' @ text))"
| "UnmarshalText ((k, v) # kvs) text = (if v = text then Inr k else UnmarshalText kvs text)"

text \<open>The ten variants and the registered names.\<close>

definition variants :: "QueryType list" where
  "variants = map fst qtNameMap"

definition registered_names :: "string set" where
  "registered_names = snd ` set qtNameMap"

section \<open>The progress condition (cetest.go, line 143)\<close>

text \<open>
  \<^verbatim>\<open>i%1000 == 0 || i%(opt.N/20) == 0\<close> on Go's \<^verbatim>\<open>int\<close>.  Division and remainder
  truncate towards zero (\<open>sdiv\<close>, \<open>smod\<close>); \<^verbatim>\<open>||\<close> evaluates its right operand only
  when the left one is false; a remainder by zero panics.  No value here is near the
  limits of a 64-bit integer, so \<^typ>\<open>int\<close> stands for Go's \<^verbatim>\<open>int\<close>.
\<close>

definition progress_cond :: "int \<Rightarrow> int \<Rightarrow> panic + bool" where
  "progress_cond i n =
     (if i smod 1000 = 0 then Inr True
      else if n sdiv 20 = 0 then Inl DivideByZero
      else Inr (i smod (n sdiv 20) = 0))"

section \<open>Configuration (cetest.go, lines 14-40 and 87-92)\<close>

record DatasetOpt =
  Name :: string
  DB :: string
  Label :: string

text \<open>
  \<^verbatim>\<open>tidb.Option\<close> is declared in the \<^verbatim>\<open>tidb\<close> package.  This file reads its
  \<^verbatim>\<open>Label\<close> only; the connection data are left to \<^verbatim>\<open>tidb.ConnectToInstances\<close>.
\<close>

record tidb_Option =
  InsLabel :: string

record Option =
  QueryTypes :: "QueryType list"
  Datasets :: "DatasetOpt list"
  Instances :: "tidb_Option list"
  ReportDir :: string
  N :: int

section \<open>Collaborators\<close>

text \<open>
  \<^verbatim>\<open>*sql.Rows\<close> as the Case Runner uses it: \<^verbatim>\<open>ColumnTypes()\<close> fails or gives the
  column types, of which only the number is used; each row that \<^verbatim>\<open>Next()\<close> delivers is
  scanned, and \<^verbatim>\<open>Scan\<close> fails or fills the string columns; \<^verbatim>\<open>Close()\<close> may fail.
\<close>

record Rows =
  ColumnTypes :: "error + nat"
  Scans :: "(error + string list) list"
  Close :: "error option"

text \<open>
  \<^verbatim>\<open>tidb.Instance\<close>: \<^verbatim>\<open>Query\<close> and \<^verbatim>\<open>Version\<close>.  \<^verbatim>\<open>Close\<close> returns nothing that
  is read; the calls are recorded by instance index in the outcome of a run.
\<close>

record Instance =
  Query :: "string \<Rightarrow> error + Rows"
  Version :: string

text \<open>\<^verbatim>\<open>Dataset\<close>: the one method called here is \<^verbatim>\<open>GenCases(n, qt)\<close>.\<close>

record Dataset =
  GenCases :: "int \<Rightarrow> QueryType \<Rightarrow> error + string list"

text \<open>
  Modelled from the spec: the Result Collector (\<^verbatim>\<open>NewEstResultCollector\<close>,
  \<^verbatim>\<open>AddEstResult\<close>), which is declared outside the source file.  It is a
  three-dimensional grid of growable sequences, addressed by (instance, dataset,
  query-type) index, all three cardinalities fixed at construction; adding appends to the
  addressed cell, and an index out of range fails fast.  \<^verbatim>\<open>EstResult\<close> is declared
  outside the source file as well; the orchestration only moves its values, so it is the
  type parameter \<open>'r\<close>.
\<close>

type_synonym 'r EstResultCollector = "'r list list list list"

definition NewEstResultCollector :: "nat \<Rightarrow> nat \<Rightarrow> nat \<Rightarrow> 'r EstResultCollector" where
  "NewEstResultCollector insCap dsCap qtCap = replicate insCap (replicate dsCap (replicate qtCap []))"

definition AddEstResult ::
  "'r EstResultCollector \<Rightarrow> nat \<Rightarrow> nat \<Rightarrow> nat \<Rightarrow> 'r \<Rightarrow> panic + 'r EstResultCollector" where
  "AddEstResult c insIdx dsIdx qtIdx r =
     (if insIdx < length c \<and> dsIdx < length (c ! insIdx) \<and> qtIdx < length (c ! insIdx ! dsIdx)
      then Inr (c[insIdx := (c ! insIdx)[dsIdx := (c ! insIdx ! dsIdx)[qtIdx :=
                  c ! insIdx ! dsIdx ! qtIdx @ [r]]]])
      else Inl IndexOutOfRange)"

text \<open>
  Everything the orchestration calls and this file does not define: the file system, the
  TOML decoder, \<^verbatim>\<open>strings.ToLower\<close>, \<^verbatim>\<open>tidb.ConnectToInstances\<close>, the four dataset
  constructors, \<^verbatim>\<open>ExtractEstResult\<close> and \<^verbatim>\<open>GenPErrorBarChartsReport\<close>.  A Go result
  pair (value, error) is a sum, \<open>Inl\<close> the error, where the caller reads the value only
  when there is no error.  \<^verbatim>\<open>tidb.ConnectToInstances\<close> keeps Go's pair, the instances
  and the error or none: the package is not part of this file, and what the slice holds
  when the call fails is not known here.  The TOML decoder is the one that calls
  \<^verbatim>\<open>UnmarshalText\<close> on the query-type names.  The collaborators are functions: what
  a call returns depends on its arguments, not on the moment it is made.
\<close>

record 'r world =
  ReadFile :: "string \<Rightarrow> error + string"
  toml_Decode :: "string \<Rightarrow> error + Option"
  ToLower :: "string \<Rightarrow> string"
  ConnectToInstances :: "tidb_Option list \<Rightarrow> Instance list \<times> error option"
  newDatasetZipFX :: "DatasetOpt \<Rightarrow> Instance \<Rightarrow> error + Dataset"
  newDatasetIMDB :: "DatasetOpt \<Rightarrow> Instance \<Rightarrow> error + Dataset"
  newDatasetTPCC :: "DatasetOpt \<Rightarrow> Instance \<Rightarrow> error + Dataset"
  newDatasetMock :: "DatasetOpt \<Rightarrow> Instance \<Rightarrow> error + Dataset"
  ExtractEstResult :: "string list list \<Rightarrow> string \<Rightarrow> error + 'r"
  GenPErrorBarChartsReport :: "Option \<Rightarrow> 'r EstResultCollector \<Rightarrow> error option"

text \<open>\<^verbatim>\<open>datasetMap\<close>: the read-only registry of dataset constructors, keyed by name.\<close>

definition datasetMap ::
  "'r world \<Rightarrow> string \<rightharpoonup> (DatasetOpt \<Rightarrow> Instance \<Rightarrow> error + Dataset)" where
  "datasetMap w =
     [''zipfx'' \<mapsto> newDatasetZipFX w,
      ''imdb'' \<mapsto> newDatasetIMDB w,
      ''tpcc'' \<mapsto> newDatasetTPCC w,
      ''mock'' \<mapsto> newDatasetMock w]"

text \<open>
  \<^verbatim>\<open>DecodeOption\<close>: decode, then look every dataset name up in \<^const>\<open>datasetMap\<close>
  after lowercasing it; the first name that is not found is the error.
\<close>

fun check_datasets :: "'r world \<Rightarrow> DatasetOpt list \<Rightarrow> error option" where
  "check_datasets w [] = None"
| "check_datasets w (ds # dss) =
     (if datasetMap w (ToLower w (Name ds)) = None
      then Some (Errorf (''unknown dateset='' @ Name ds))
      else check_datasets w dss)"

definition DecodeOption :: "'r world \<Rightarrow> string \<Rightarrow> error + Option" where
  "DecodeOption w content =
     (case toml_Decode w content of
        Inl err \<Rightarrow> Inl (Trace err)
      | Inr opt \<Rightarrow>
          (case check_datasets w (Datasets opt) of
             Some err \<Rightarrow> Inl err
           | None \<Rightarrow> Inr opt))"

section \<open>The Case Runner (cetest.go, lines 168-203)\<close>

text \<open>The scanning loop: an error of \<^verbatim>\<open>Scan\<close> returns at once.\<close>

fun scan_rows :: "(error + string list) list \<Rightarrow> error + string list list" where
  "scan_rows [] = Inr []"
| "scan_rows (Inl err # rest) = Inl err"
| "scan_rows (Inr cols # rest) =
     (case scan_rows rest of Inl err \<Rightarrow> Inl err | Inr results \<Rightarrow> Inr (cols # results))"

text \<open>
  The deferred function: \<^verbatim>\<open>if err := rows.Close(); err != nil && re == nil { re = err }\<close>.
\<close>

definition close_rows :: "Rows \<Rightarrow> error + 'r \<Rightarrow> error + 'r" where
  "close_rows rows res =
     (case Close rows of
        None \<Rightarrow> res
      | Some err \<Rightarrow> (case res of Inl re \<Rightarrow> Inl re | Inr r \<Rightarrow> Inl err))"

text \<open>
  \<^verbatim>\<open>runOneEstCase\<close> returns the statements it has sent to the instance, in order, and
  its result.  The slow-query line depends on the wall clock and is printed only; it is
  not part of the model.
\<close>

definition runOneEstCase :: "'r world \<Rightarrow> Instance \<Rightarrow> string \<Rightarrow> string list \<times> (error + 'r)" where
  "runOneEstCase w ins query =
     (let sql = ''EXPLAIN ANALYZE '' @ query in
      ([sql],
       case Query ins sql of
         Inl err \<Rightarrow> Inl (Trace err)
       | Inr rows \<Rightarrow>
           close_rows rows
             (case ColumnTypes rows of
                Inl err \<Rightarrow> Inl err
              | Inr nCols \<Rightarrow>
                  (case scan_rows (Scans rows) of
                     Inl err \<Rightarrow> Inl err
                   | Inr results \<Rightarrow> ExtractEstResult w results (Version ins)))))"

section \<open>The orchestrator (cetest.go, lines 94-166)\<close>

subsection \<open>Dataset construction (lines 114-124)\<close>

text \<open>
  A computation of the main goroutine returns a value, returns an error, or panics.
\<close>

datatype 'a res = Ok 'a | Err error | Pan panic

text \<open>
  The inner loop: \<^verbatim>\<open>datasetMap[opt.Datasets[j].Name](opt.Datasets[j], instances[i])\<close>.
  The name is looked up as it is written; a name that is not a key reads as the nil
  function, and calling it panics.
\<close>

fun build_row :: "'r world \<Rightarrow> Instance \<Rightarrow> DatasetOpt list \<Rightarrow> Dataset list res" where
  "build_row w ins [] = Ok []"
| "build_row w ins (d # ds) =
     (case datasetMap w (Name d) of
        None \<Rightarrow> Pan NilFuncCall
      | Some new \<Rightarrow>
          (case new d ins of
             Inl err \<Rightarrow> Err err
           | Inr x \<Rightarrow>
               (case build_row w ins ds of
                  Ok xs \<Rightarrow> Ok (x # xs)
                | Err err \<Rightarrow> Err err
                | Pan p \<Rightarrow> Pan p)))"

text \<open>
  The outer loop.  \<^verbatim>\<open>datasets\<close> is made with \<^verbatim>\<open>len(instances)*len(opt.Datasets)\<close>
  entries (\<open>cap\<close>), and \<^verbatim>\<open>datasets[i] = ...\<close> panics when \<open>i\<close> is not below that
  length.  The result lists the rows that have been assigned, one per instance; the
  entries of the slice beyond them stay nil and are never read.
\<close>

fun build_rows :: "'r world \<Rightarrow> DatasetOpt list \<Rightarrow> nat \<Rightarrow> nat \<Rightarrow> Instance list \<Rightarrow> Dataset list list res" where
  "build_rows w dsopts cap i [] = Ok []"
| "build_rows w dsopts cap i (ins # inss) =
     (if \<not> i < cap then Pan IndexOutOfRange
      else
        (case build_row w ins dsopts of
           Err err \<Rightarrow> Err err
         | Pan p \<Rightarrow> Pan p
         | Ok row \<Rightarrow>
             (case build_rows w dsopts cap (Suc i) inss of
                Ok rows \<Rightarrow> Ok (row # rows)
              | Err err \<Rightarrow> Err err
              | Pan p \<Rightarrow> Pan p)))"

definition build_datasets :: "'r world \<Rightarrow> Option \<Rightarrow> Instance list \<Rightarrow> Dataset list list res" where
  "build_datasets w opt instances =
     build_rows w (Datasets opt) (length instances * length (Datasets opt)) 0 instances"

subsection \<open>The worker goroutine (lines 131-155)\<close>

text \<open>
  What a worker does to the state it shares with the other goroutines and to the
  outside, in the order it does it: a progress line on standard output, a statement sent
  to its instance, a result added to the collector, its slot of \<^verbatim>\<open>insErrs\<close> written,
  a panic.  Each effect carries the index of the instance whose worker makes it.
\<close>

type_synonym progress = "string \<times> string \<times> string \<times> int \<times> int"

datatype 'r effect =
    Print nat progress
  | Send nat string
  | Append nat nat nat 'r
  | SetErr nat error
  | Panic nat panic

fun goroutine :: "'r effect \<Rightarrow> nat" where
  "goroutine (Print insIdx l) = insIdx"
| "goroutine (Send insIdx sql) = insIdx"
| "goroutine (Append insIdx dsIdx qtIdx r) = insIdx"
| "goroutine (SetErr insIdx err) = insIdx"
| "goroutine (Panic insIdx p) = insIdx"

text \<open>
  The arguments of \<^verbatim>\<open>fmt.Printf\<close> at line 144.  \<^verbatim>\<open>opt.Instances[insIdx]\<close> and
  \<^verbatim>\<open>opt.Datasets[dsIdx]\<close> panic when the index is out of range.
\<close>

definition progress_line :: "Option \<Rightarrow> nat \<Rightarrow> nat \<Rightarrow> QueryType \<Rightarrow> nat \<Rightarrow> panic + 'r effect list" where
  "progress_line opt insIdx dsIdx qt i =
     (if dsIdx < length (Datasets opt) \<and> insIdx < length (Instances opt)
      then Inr [Print insIdx (Label (Datasets opt ! dsIdx), InsLabel (Instances opt ! insIdx),
                              String_qt qt, int i, N opt)]
      else Inl IndexOutOfRange)"

text \<open>
  The three nested loops.  Each returns the effects of the iterations it has run and
  whether the goroutine has ended inside them (\<open>True\<close>: by \<^verbatim>\<open>return\<close> or by a panic)
  or the loop has run to its end (\<open>False\<close>).

  The loop over the cases \<^verbatim>\<open>for i, q := range qs\<close>, from index \<open>i\<close> on.
\<close>

fun worker_cases ::
  "'r world \<Rightarrow> Option \<Rightarrow> Instance \<Rightarrow> nat \<Rightarrow> nat \<Rightarrow> nat \<Rightarrow> QueryType \<Rightarrow> nat \<Rightarrow> string list
    \<Rightarrow> bool \<times> 'r effect list" where
  "worker_cases w opt ins insIdx dsIdx qtIdx qt i [] = (False, [])"
| "worker_cases w opt ins insIdx dsIdx qtIdx qt i (q # qs) =
     (case progress_cond (int i) (N opt) of
        Inl p \<Rightarrow> (True, [Panic insIdx p])
      | Inr b \<Rightarrow>
          (case (if b then progress_line opt insIdx dsIdx qt i else Inr []) of
             Inl p \<Rightarrow> (True, [Panic insIdx p])
           | Inr out \<Rightarrow>
               (case runOneEstCase w ins q of
                  (sqls, Inl err) \<Rightarrow> (True, out @ map (Send insIdx) sqls @ [SetErr insIdx err])
                | (sqls, Inr estResult) \<Rightarrow>
                    (case worker_cases w opt ins insIdx dsIdx qtIdx qt (Suc i) qs of
                       (ended, es) \<Rightarrow>
                         (ended, out @ map (Send insIdx) sqls
                                  @ [Append insIdx dsIdx qtIdx estResult] @ es)))))"

text \<open>The loop over the query types \<^verbatim>\<open>for qtIdx, qt := range opt.QueryTypes\<close>.\<close>

fun worker_qts ::
  "'r world \<Rightarrow> Option \<Rightarrow> Instance \<Rightarrow> Dataset \<Rightarrow> nat \<Rightarrow> nat \<Rightarrow> nat \<Rightarrow> QueryType list
    \<Rightarrow> bool \<times> 'r effect list" where
  "worker_qts w opt ins ds insIdx dsIdx qtIdx [] = (False, [])"
| "worker_qts w opt ins ds insIdx dsIdx qtIdx (qt # qts) =
     (case GenCases ds (N opt) qt of
        Inl err \<Rightarrow> (True, [SetErr insIdx err])
      | Inr qs \<Rightarrow>
          (case worker_cases w opt ins insIdx dsIdx qtIdx qt 0 qs of
             (True, es) \<Rightarrow> (True, es)
           | (False, es) \<Rightarrow>
               (case worker_qts w opt ins ds insIdx dsIdx (Suc qtIdx) qts of
                  (ended, es') \<Rightarrow> (ended, es @ es'))))"

text \<open>
  The loop over the dataset indices \<^verbatim>\<open>for dsIdx := range opt.Datasets\<close>, with
  \<^verbatim>\<open>ds := datasets[insIdx][dsIdx]\<close>; \<open>row\<close> is \<^verbatim>\<open>datasets[insIdx]\<close>.
\<close>

fun worker_dss ::
  "'r world \<Rightarrow> Option \<Rightarrow> Instance \<Rightarrow> Dataset list \<Rightarrow> nat \<Rightarrow> nat list \<Rightarrow> bool \<times> 'r effect list" where
  "worker_dss w opt ins row insIdx [] = (False, [])"
| "worker_dss w opt ins row insIdx (dsIdx # rest) =
     (if \<not> dsIdx < length row then (True, [Panic insIdx IndexOutOfRange])
      else
        (case worker_qts w opt ins (row ! dsIdx) insIdx dsIdx 0 (QueryTypes opt) of
           (True, es) \<Rightarrow> (True, es)
         | (False, es) \<Rightarrow>
             (case worker_dss w opt ins row insIdx rest of
                (ended, es') \<Rightarrow> (ended, es @ es'))))"

text \<open>
  The goroutine started for \<open>insIdx\<close>.  It is started for the indices of
  \<^verbatim>\<open>instances\<close> only, and \<^verbatim>\<open>datasets\<close> has a row for each of them.
\<close>

definition worker ::
  "'r world \<Rightarrow> Option \<Rightarrow> Instance list \<Rightarrow> Dataset list list \<Rightarrow> nat \<Rightarrow> 'r effect list" where
  "worker w opt instances datasets insIdx =
     snd (worker_dss w opt (instances ! insIdx) (datasets ! insIdx) insIdx
            [0..<length (Datasets opt)])"

subsection \<open>Concurrent execution (lines 127-157)\<close>

text \<open>
  The goroutines run concurrently: the effects of each happen in its own order, and the
  effects of different goroutines interleave in any way.  A schedule names the goroutine
  that makes the next step; a step of a goroutine that has none left, or that does not
  exist, is skipped; when the schedule ends, the goroutines that still have effects run
  one after the other.  So every list of numbers is a schedule of a complete execution.
\<close>

fun interleave :: "nat list \<Rightarrow> 'a list list \<Rightarrow> 'a list" where
  "interleave [] tss = concat tss"
| "interleave (k # ks) tss =
     (if k < length tss \<and> tss ! k \<noteq> []
      then hd (tss ! k) # interleave ks (tss[k := tl (tss ! k)])
      else interleave ks tss)"

text \<open>The state the goroutines share, standard output and the statements sent.\<close>

record 'r gstate =
  collector :: "'r EstResultCollector"
  insErrs :: "error option list"
  stdout :: "progress list"
  sent :: "(nat \<times> string) list"

fun apply_effect :: "'r effect \<Rightarrow> 'r gstate \<Rightarrow> panic + 'r gstate" where
  "apply_effect (Print insIdx l) g = Inr (g\<lparr>stdout := stdout g @ [l]\<rparr>)"
| "apply_effect (Send insIdx sql) g = Inr (g\<lparr>sent := sent g @ [(insIdx, sql)]\<rparr>)"
| "apply_effect (Append insIdx dsIdx qtIdx r) g =
     (case AddEstResult (collector g) insIdx dsIdx qtIdx r of
        Inl p \<Rightarrow> Inl p
      | Inr c \<Rightarrow> Inr (g\<lparr>collector := c\<rparr>))"
| "apply_effect (SetErr insIdx err) g =
     (if insIdx < length (insErrs g) then Inr (g\<lparr>insErrs := (insErrs g)[insIdx := Some err]\<rparr>)
      else Inl IndexOutOfRange)"
| "apply_effect (Panic insIdx p) g = Inl p"

text \<open>
  A panic in a worker is not recovered.  It unwinds that goroutine only: the worker makes
  no further step, and its deferred \<^verbatim>\<open>wg.Done()\<close> (line 132) runs, so the worker counts
  as done for \<^verbatim>\<open>wg.Wait()\<close>.  Then the runtime ends the process, but not at once: until
  it does, the other goroutines go on.  How many more steps the program makes after the
  first panic is not fixed by the program; it is the parameter \<open>grace\<close> of a run.

  The fate of the process: no goroutine has panicked, or one has panicked with \<open>p\<close> and
  the process has \<open>n\<close> more steps to make.
\<close>

datatype fate = Alive | Dying panic nat

fun over :: "fate \<Rightarrow> panic option" where
  "over (Dying p 0) = Some p"
| "over f = None"

fun tick :: "fate \<Rightarrow> fate" where
  "tick Alive = Alive"
| "tick (Dying p n) = Dying p (n - 1)"

fun hit :: "panic \<Rightarrow> nat \<Rightarrow> fate \<Rightarrow> fate" where
  "hit p grace Alive = Dying p grace"
| "hit p grace (Dying q n) = Dying q (n - 1)"

text \<open>
  How the workers end: all of them are done, so that \<^verbatim>\<open>wg.Wait()\<close> returns, in a
  shared state and with a fate of the process (\<open>Joined\<close>); or the runtime ends the
  process before that (\<open>Ended\<close>).

  \<open>exec\<close> runs an interleaving.  \<open>dead\<close> lists the goroutines that have panicked; their
  effects do not happen.  A step of a live goroutine does not happen either when the
  process is over.  A step that panics, by a \<open>Panic\<close> effect or in the collaborator it
  calls, leaves the state as it is and ends its goroutine.
\<close>

datatype 'r workers = Joined "'r gstate" fate | Ended panic "'r gstate"

fun exec :: "nat \<Rightarrow> 'r effect list \<Rightarrow> nat list \<Rightarrow> fate \<Rightarrow> 'r gstate \<Rightarrow> 'r workers" where
  "exec grace [] dead f g = Joined g f"
| "exec grace (e # es) dead f g =
     (if goroutine e \<in> set dead then exec grace es dead f g
      else
        (case over f of
           Some p \<Rightarrow> Ended p g
         | None \<Rightarrow>
             (case apply_effect e g of
                Inl p \<Rightarrow> exec grace es (goroutine e # dead) (hit p grace f) g
              | Inr g' \<Rightarrow> exec grace es dead (tick f) g')))"

definition run_workers ::
  "'r world \<Rightarrow> Option \<Rightarrow> Instance list \<Rightarrow> Dataset list list \<Rightarrow> nat list \<Rightarrow> nat \<Rightarrow> 'r workers" where
  "run_workers w opt instances datasets sched grace =
     exec grace (interleave sched (map (worker w opt instances datasets) [0..<length instances]))
       [] Alive
       \<lparr>collector = NewEstResultCollector (length instances) (length (Datasets opt))
                      (length (QueryTypes opt)),
        insErrs = replicate (length instances) None,
        stdout = [],
        sent = []\<rparr>"

subsection \<open>The whole run\<close>

text \<open>The loop over \<^verbatim>\<open>insErrs\<close> at lines 159-163.\<close>

fun first_err :: "error option list \<Rightarrow> error option" where
  "first_err [] = None"
| "first_err (Some err # rest) = Some err"
| "first_err (None # rest) = first_err rest"

text \<open>
  How a call of \<^verbatim>\<open>RunCETestWithConfig\<close> ends.  It returns (\<open>Return\<close>, with the error or
  none), or a panic of its own goroutine unwinds it (\<open>MainPanic\<close>); both run the deferred
  function if it has been registered.  Or the runtime ends the process after the panic
  of a worker, before the function has returned (\<open>Killed\<close>).  Each carries the indices of
  the instances on which \<^verbatim>\<open>Close\<close> has been called, in the order of the calls.
\<close>

datatype outcome =
    Return "error option" "nat list"
  | MainPanic panic "nat list"
  | Killed panic "nat list"

text \<open>
  Lines 159-165 and the deferred function, after \<^verbatim>\<open>wg.Wait()\<close> has returned with \<open>n\<close>
  instances connected.  The steps are: the loop over \<^verbatim>\<open>insErrs\<close> with the call of the
  report; one call of \<^verbatim>\<open>Close\<close> for each instance; the return.  When a worker has
  panicked, the process makes as many of these steps as it has left.
\<close>

definition finish :: "'r world \<Rightarrow> Option \<Rightarrow> nat \<Rightarrow> 'r gstate \<Rightarrow> fate \<Rightarrow> outcome" where
  "finish w opt n g f =
     (let result = (case first_err (insErrs g) of
                      Some err \<Rightarrow> Some err
                    | None \<Rightarrow> GenPErrorBarChartsReport w opt (collector g))
      in case f of
           Alive \<Rightarrow> Return result [0..<n]
         | Dying p k \<Rightarrow>
             if n + 2 \<le> k then Return result [0..<n]
             else Killed p [0..<min n (k - 1)])"

definition RunCETestWithConfig :: "'r world \<Rightarrow> nat list \<Rightarrow> nat \<Rightarrow> string \<Rightarrow> outcome" where
  "RunCETestWithConfig w sched grace confPath =
     (case ReadFile w confPath of
        Inl err \<Rightarrow> Return (Some (Trace err)) []
      | Inr confContent \<Rightarrow>
     (case DecodeOption w confContent of
        Inl err \<Rightarrow> Return (Some err) []
      | Inr opt \<Rightarrow>
     (case ConnectToInstances w (Instances opt) of
        (instances, Some err) \<Rightarrow> Return (Some (Trace err)) []
      | (instances, None) \<Rightarrow>
     (let closed = [0..<length instances] in
      case build_datasets w opt instances of
        Pan p \<Rightarrow> MainPanic p closed
      | Err err \<Rightarrow> Return (Some err) closed
      | Ok datasets \<Rightarrow>
     (case run_workers w opt instances datasets sched grace of
        Ended p g \<Rightarrow> Killed p []
      | Joined g f \<Rightarrow> finish w opt (length instances) g f)))))"

section \<open>Concrete collaborators\<close>

text \<open>
  Collaborators for running the orchestration on concrete configurations.
  \<^verbatim>\<open>strings.ToLower\<close> on ASCII text moves the letters A to Z, and nothing else, to
  lower case.
\<close>

definition ascii_ToLower :: "string \<Rightarrow> string" where
  "ascii_ToLower =
     map (\<lambda>c. let n = (of_char c :: nat) in if 65 \<le> n \<and> n \<le> 90 then char_of (n + 32) else c)"

text \<open>A plan of one row with two columns, which scans and closes without error.\<close>

definition plan_rows :: Rows where
  "plan_rows = \<lparr>ColumnTypes = Inr 2, Scans = [Inr [''TableReader_5'', ''1.00'']], Close = None\<rparr>"

text \<open>
  The instance connected for an entry of the configuration: it answers every statement
  with \<^const>\<open>plan_rows\<close>, except that the instance labelled \<open>down\<close> fails every
  statement.
\<close>

definition instance_of :: "tidb_Option \<Rightarrow> Instance" where
  "instance_of inst =
     \<lparr>Query = (\<lambda>sql. if InsLabel inst = ''down'' then Inl (Errorf ''connection refused'')
                      else Inr plan_rows),
      Version = ''v4.0.0''\<rparr>"

text \<open>
  The dataset built for an entry of the configuration generates \<open>n\<close> cases for every
  query type, each with its own text: the table is the name of the dataset, the constant
  grows with the case index, and the name of the query type is a comment.
\<close>

definition case_query :: "string \<Rightarrow> QueryType \<Rightarrow> nat \<Rightarrow> string" where
  "case_query name qt j =
     ''SELECT * FROM '' @ name @ '' WHERE a = 1'' @ replicate j (CHR ''0'') @ '' -- '' @ String_qt qt"

definition dataset_of :: "DatasetOpt \<Rightarrow> Dataset" where
  "dataset_of d = \<lparr>GenCases = (\<lambda>n qt. Inr (map (case_query (Name d) qt) [0..<nat n]))\<rparr>"

text \<open>
  The world in which the configuration file decodes to \<open>opt\<close>, every instance connects,
  every constructor succeeds, every plan yields actual = estimated = 1 (the EstResult is
  the pair of the two) and the report succeeds.
\<close>

definition scenario :: "Option \<Rightarrow> (nat \<times> nat) world" where
  "scenario opt =
     \<lparr>ReadFile = (\<lambda>path. Inr ''conf''),
      toml_Decode = (\<lambda>content. Inr opt),
      ToLower = ascii_ToLower,
      ConnectToInstances = (\<lambda>opts. (map instance_of opts, None)),
      newDatasetZipFX = (\<lambda>d ins. Inr (dataset_of d)),
      newDatasetIMDB = (\<lambda>d ins. Inr (dataset_of d)),
      newDatasetTPCC = (\<lambda>d ins. Inr (dataset_of d)),
      newDatasetMock = (\<lambda>d ins. Inr (dataset_of d)),
      ExtractEstResult = (\<lambda>results version. Inr (1, 1)),
      GenPErrorBarChartsReport = (\<lambda>opt c. None)\<rparr>"

text \<open>
  The end-to-end scenario of the specification: one instance, the dataset \<open>mock\<close>, the
  query type single-col-point-query, five cases.
\<close>

definition opt_e2e :: Option where
  "opt_e2e =
     \<lparr>QueryTypes = [QTSingleColPointQuery],
      Datasets = [\<lparr>Name = ''mock'', DB = ''test'', Label = ''mock''\<rparr>],
      Instances = [\<lparr>InsLabel = ''tidb''\<rparr>],
      ReportDir = ''report'',
      N = 5\<rparr>"

text \<open>
  A configuration built from dataset names, instance labels, query types and the case
  count.
\<close>

definition config :: "string list \<Rightarrow> string list \<Rightarrow> QueryType list \<Rightarrow> int \<Rightarrow> Option" where
  "config names labels qts n =
     \<lparr>QueryTypes = qts,
      Datasets = map (\<lambda>name. \<lparr>Name = name, DB = ''test'', Label = name\<rparr>) names,
      Instances = map (\<lambda>label. \<lparr>InsLabel = label\<rparr>) labels,
      ReportDir = ''report'',
      N = n\<rparr>"

text \<open>
  The instances and the rows of datasets that a run of the scenario works with.
\<close>

definition instances_of :: "Option \<Rightarrow> Instance list" where
  "instances_of opt = map instance_of (Instances opt)"

definition datasets_of :: "Option \<Rightarrow> Dataset list list" where
  "datasets_of opt = map (\<lambda>inst. map dataset_of (Datasets opt)) (Instances opt)"

text \<open>
  A second world for the order of the cases: an instance answers a statement with a plan
  of one row that holds the statement, and the extraction gives the number of characters
  of that statement as both counts, so that different cases have different results.
\<close>

definition echo_instance :: "tidb_Option \<Rightarrow> Instance" where
  "echo_instance inst =
     \<lparr>Query = (\<lambda>sql. Inr \<lparr>ColumnTypes = Inr 1, Scans = [Inr [sql]], Close = None\<rparr>),
      Version = ''v4.0.0''\<rparr>"

definition echo :: "Option \<Rightarrow> (nat \<times> nat) world" where
  "echo opt =
     (scenario opt)
       \<lparr>ConnectToInstances := (\<lambda>opts. (map echo_instance opts, None)),
        ExtractEstResult := (\<lambda>results version.
           Inr (length (concat (concat results)), length (concat (concat results))))\<rparr>"

text \<open>Configurations for concrete runs.\<close>

definition cfg_one_down :: Option where
  "cfg_one_down = config [''mock''] [''down'', ''tidb''] [QTSingleColPointQuery] 1"

definition cfg_capital_no_instance :: Option where
  "cfg_capital_no_instance = config [''Mock''] [] [QTSingleColPointQuery] 5"

definition cfg_capital :: Option where
  "cfg_capital = config [''mock'', ''Mock''] [''tidb''] [QTSingleColPointQuery] 5"

definition cfg_one_down_5 :: Option where
  "cfg_one_down_5 = config [''mock''] [''down'', ''tidb''] [QTSingleColPointQuery] 5"

definition cfg_grid :: Option where
  "cfg_grid = config [''mock'', ''tpcc''] [''tidb'', ''tikv''] [QTSingleColPointQuery, QTGroup] 10"

definition cfg_grid_20 :: Option where
  "cfg_grid_20 = config [''mock'', ''tpcc''] [''tidb'', ''tikv''] [QTSingleColPointQuery, QTGroup] 20"

definition cfg_one_down_20 :: Option where
  "cfg_one_down_20 = config [''mock''] [''down'', ''tidb''] [QTSingleColPointQuery] 20"

section \<open>Notions used in the statements\<close>

text \<open>
  A collector with the cardinalities \<open>I\<close>, \<open>D\<close>, \<open>Q\<close>; a shared state with that
  collector and \<open>I\<close> error slots; an effect whose indices are within them.
\<close>

definition dims :: "nat \<Rightarrow> nat \<Rightarrow> nat \<Rightarrow> 'r EstResultCollector \<Rightarrow> bool" where
  "dims I D Q c =
     (length c = I \<and> (\<forall>i<I. length (c ! i) = D \<and> (\<forall>d<D. length (c ! i ! d) = Q)))"

definition state_ok :: "nat \<Rightarrow> nat \<Rightarrow> nat \<Rightarrow> 'r gstate \<Rightarrow> bool" where
  "state_ok I D Q g = (dims I D Q (collector g) \<and> length (insErrs g) = I)"

fun effect_ok :: "nat \<Rightarrow> nat \<Rightarrow> nat \<Rightarrow> 'r effect \<Rightarrow> bool" where
  "effect_ok I D Q (Append insIdx dsIdx qtIdx r) = (insIdx < I \<and> dsIdx < D \<and> qtIdx < Q)"
| "effect_ok I D Q (SetErr insIdx err) = (insIdx < I)"
| "effect_ok I D Q e = True"

text \<open>
  The configured order of the cases of one instance: the datasets in the order of the
  configuration, for each the query types in the order of the configuration, for each
  the generated cases in their order.  A case is (dataset index, query-type index, case
  index, query).  \<open>row\<close> is the instance's row of datasets; a pair for which the
  generation fails has no cases.
\<close>

definition cases_of :: "nat \<Rightarrow> nat \<Rightarrow> nat \<Rightarrow> string list \<Rightarrow> (nat \<times> nat \<times> nat \<times> string) list" where
  "cases_of dsIdx qtIdx i qs = map (\<lambda>(j, q). (dsIdx, qtIdx, j, q)) (enumerate i qs)"

definition qts_order ::
  "Option \<Rightarrow> Dataset \<Rightarrow> nat \<Rightarrow> nat \<Rightarrow> QueryType list \<Rightarrow> (nat \<times> nat \<times> nat \<times> string) list" where
  "qts_order opt ds dsIdx qtIdx qts =
     concat (map (\<lambda>(t, qt).
         case GenCases ds (N opt) qt of
           Inl err \<Rightarrow> []
         | Inr qs \<Rightarrow> cases_of dsIdx t 0 qs)
       (enumerate qtIdx qts))"

definition dss_order :: "Option \<Rightarrow> Dataset list \<Rightarrow> nat list \<Rightarrow> (nat \<times> nat \<times> nat \<times> string) list" where
  "dss_order opt row idxs =
     concat (map (\<lambda>dsIdx. qts_order opt (row ! dsIdx) dsIdx 0 (QueryTypes opt)) idxs)"

definition case_order :: "Option \<Rightarrow> Dataset list \<Rightarrow> (nat \<times> nat \<times> nat \<times> string) list" where
  "case_order opt row = dss_order opt row [0..<length (Datasets opt)]"

text \<open>
  Running one case on instance \<open>insIdx\<close>: its statement is sent, and if the runner
  succeeds its result is added to the cell of the case.
\<close>

fun case_effects :: "'r world \<Rightarrow> Instance \<Rightarrow> nat \<Rightarrow> nat \<times> nat \<times> nat \<times> string \<Rightarrow> 'r effect list" where
  "case_effects w ins insIdx (dsIdx, qtIdx, i, q) =
     Send insIdx (''EXPLAIN ANALYZE '' @ q) #
     (case snd (runOneEstCase w ins q) of
        Inl err \<Rightarrow> []
      | Inr r \<Rightarrow> [Append insIdx dsIdx qtIdx r])"

text \<open>The effects that execute a case or add its result, for instance \<open>i\<close>.\<close>

fun case_effect_of :: "nat \<Rightarrow> 'r effect \<Rightarrow> bool" where
  "case_effect_of i (Send insIdx sql) = (insIdx = i)"
| "case_effect_of i (Append insIdx dsIdx qtIdx r) = (insIdx = i)"
| "case_effect_of i e = False"

text \<open>
  The case counts for which the progress condition has a non-zero divisor for every case
  index that occurs (with a single case, only index 0 occurs, where the left operand
  decides).
\<close>

definition progress_safe :: "int \<Rightarrow> bool" where
  "progress_safe n = (n = 1 \<or> 20 \<le> n)"

text \<open>
  The cardinality contract of \<^verbatim>\<open>GenCases\<close> in the specification: a call that succeeds
  returns exactly \<open>n\<close> cases.
\<close>

definition gen_contract :: "Option \<Rightarrow> Dataset \<Rightarrow> bool" where
  "gen_contract opt ds =
     (\<forall>qt\<in>set (QueryTypes opt). \<forall>qs. GenCases ds (N opt) qt = Inr qs \<longrightarrow> length qs = nat (N opt))"

text \<open>
  An instance without failures: on its row of datasets every generation succeeds, with
  exactly \<open>N\<close> cases, and the runner succeeds on every generated case.
\<close>

definition no_failures :: "'r world \<Rightarrow> Option \<Rightarrow> Instance \<Rightarrow> Dataset list \<Rightarrow> bool" where
  "no_failures w opt ins row =
     (\<forall>ds\<in>set row. \<forall>qt\<in>set (QueryTypes opt).
        \<exists>qs. GenCases ds (N opt) qt = Inr qs \<and> length qs = nat (N opt) \<and>
             (\<forall>q\<in>set qs. \<exists>r. snd (runOneEstCase w ins q) = Inr r))"

text \<open>The effects that add a result to the cell \<open>(i, d, t)\<close>; the effects that end a worker.\<close>

fun appends_to :: "nat \<Rightarrow> nat \<Rightarrow> nat \<Rightarrow> 'r effect \<Rightarrow> bool" where
  "appends_to i d t (Append insIdx dsIdx qtIdx r) = (insIdx = i \<and> dsIdx = d \<and> qtIdx = t)"
| "appends_to i d t e = False"

fun ends_worker :: "'r effect \<Rightarrow> bool" where
  "ends_worker (Panic insIdx p) = True"
| "ends_worker (SetErr insIdx err) = True"
| "ends_worker e = False"

fun is_Panic :: "'r effect \<Rightarrow> bool" where
  "is_Panic (Panic insIdx p) = True"
| "is_Panic e = False"

text \<open>The effects that write the error slot of instance \<open>k\<close>.\<close>

fun sets_err :: "nat \<Rightarrow> 'r effect \<Rightarrow> bool" where
  "sets_err k (SetErr insIdx err) = (insIdx = k)"
| "sets_err k e = False"

text \<open>
  The state in which the workers end, joined or not, and whether they have joined
  (\<^verbatim>\<open>wg.Wait()\<close> has returned); what an effect adds to the cell
  \<open>(i, d, t)\<close> and to the statements of instance \<open>i\<close>; the results of the cases of a
  cell, in the configured order; the statements received by instance \<open>i\<close>.
\<close>

fun final :: "'r workers \<Rightarrow> 'r gstate" where
  "final (Joined g f) = g"
| "final (Ended p g) = g"

fun joined :: "'r workers \<Rightarrow> bool" where
  "joined (Joined g f) = True"
| "joined (Ended p g) = False"

fun added :: "nat \<Rightarrow> nat \<Rightarrow> nat \<Rightarrow> 'r effect \<Rightarrow> 'r list" where
  "added i d t (Append insIdx dsIdx qtIdx r) =
     (if insIdx = i \<and> dsIdx = d \<and> qtIdx = t then [r] else [])"
| "added i d t e = []"

fun sent_to :: "nat \<Rightarrow> 'r effect \<Rightarrow> string list" where
  "sent_to i (Send insIdx sql) = (if insIdx = i then [sql] else [])"
| "sent_to i e = []"

fun cell_result :: "'r world \<Rightarrow> Instance \<Rightarrow> nat \<Rightarrow> nat \<Rightarrow> nat \<times> nat \<times> nat \<times> string \<Rightarrow> 'r list" where
  "cell_result w ins d t (dsIdx, qtIdx, i, q) =
     (if dsIdx = d \<and> qtIdx = t
      then (case snd (runOneEstCase w ins q) of Inl err \<Rightarrow> [] | Inr r \<Rightarrow> [r])
      else [])"

fun statement :: "nat \<times> nat \<times> nat \<times> string \<Rightarrow> string" where
  "statement (dsIdx, qtIdx, i, q) = ''EXPLAIN ANALYZE '' @ q"

definition received :: "nat \<Rightarrow> 'r gstate \<Rightarrow> string list" where
  "received i g = map snd (filter (\<lambda>(insIdx, sql). insIdx = i) (sent g))"

section \<open>Theorems\<close>

subsection \<open>Query-type names\<close>

lemmas QT_defs =
  QTSingleColPointQuery_def QTSingleColRangeQuery_def QTMultiColsPointQuery_def
  QTMultiColsRangeQueryEQPrefix_def QTMultiColsRangeQuery_def QTMCVPointQuery_def
  QTLCVPointQuery_def QTJoinEQ_def QTJoinNonEQ_def QTGroup_def

lemma distinct_qtNameMap_keys: "distinct (map fst qtNameMap)"
  by (simp add: qtNameMap_def QT_defs)

lemma distinct_qtNameMap_names: "distinct (map snd qtNameMap)"
  by (simp add: qtNameMap_def)

lemma variants_ten: "length variants = 10 \<and> distinct variants"
  by (simp add: variants_def qtNameMap_def QT_defs)

lemma String_qt_entry: "(k, v) \<in> set qtNameMap \<Longrightarrow> String_qt k = v"
  using distinct_qtNameMap_keys by (simp add: String_qt_def)

lemma UnmarshalText_found:
  "distinct (map snd kvs) \<Longrightarrow> (k, v) \<in> set kvs \<Longrightarrow> UnmarshalText kvs v = Inr k"
proof (induction kvs)
  case Nil
  then show ?case by simp
next
  case (Cons kv kvs)
  obtain k' v' where kv: "kv = (k', v')" by (cases kv)
  show ?case
  proof (cases "v' = v")
    case True
    with Cons.prems kv have "k' = k" by (auto simp: image_iff)
    with True kv show ?thesis by simp
  next
    case False
    with Cons kv show ?thesis by auto
  qed
qed

lemma UnmarshalText_unknown:
  "text \<notin> snd ` set kvs \<Longrightarrow> UnmarshalText kvs text = Inl (Errorf (''unknown query-type='' @ text))"
  by (induction kvs) (auto simp: image_iff)

text \<open>
  C4.  Whatever order the range loop visits the entries of \<^verbatim>\<open>qtNameMap\<close> in, parsing
  the name of each of the ten variants gives that variant back, and parsing a string that
  is not one of the ten registered names fails with the unknown-query-type error; it
  never falls back to a variant.
\<close>

theorem C4_roundtrip:
  assumes "mset order = mset qtNameMap"
  shows "(\<forall>q \<in> set variants. UnmarshalText order (String_qt q) = Inr q) \<and>
         (\<forall>text. text \<notin> registered_names \<longrightarrow>
            UnmarshalText order text = Inl (Errorf (''unknown query-type='' @ text)))"
proof -
  from assms have s: "set order = set qtNameMap"
    by (rule mset_eq_setD)
  from assms have "mset (map snd order) = mset (map snd qtNameMap)"
    by simp
  then have d: "distinct (map snd order)"
    using distinct_qtNameMap_names by (metis mset_eq_imp_distinct_iff)
  have "UnmarshalText order (String_qt q) = Inr q" if "q \<in> set variants" for q
  proof -
    from that obtain v where "(q, v) \<in> set qtNameMap"
      by (auto simp: variants_def)
    then show ?thesis
      using s d by (simp add: String_qt_entry UnmarshalText_found)
  qed
  then show ?thesis
    using s by (simp add: registered_names_def UnmarshalText_unknown)
qed

theorem C4_roundtrip_witness:
  "UnmarshalText (rev qtNameMap) (String_qt QTJoinEQ) = Inr QTJoinEQ \<and>
   UnmarshalText (rev qtNameMap) ''Group'' = Inl (Errorf ''unknown query-type=Group'')"
proof -
  have m: "mset (rev qtNameMap) = mset qtNameMap" by simp
  have v: "QTJoinEQ \<in> set variants"
    by (simp add: variants_def qtNameMap_def)
  have n: "''Group'' \<notin> registered_names"
    by (simp add: registered_names_def qtNameMap_def)
  from C4_roundtrip [OF m] v n show ?thesis by auto
qed

subsection \<open>The progress condition\<close>

text \<open>
  C2 (evaluation at the failing input).  With \<open>N = 5\<close> the divisor \<^verbatim>\<open>opt.N/20\<close> is
  zero; at the second case, \<open>i = 1\<close>, the left operand is false and the remainder by
  zero panics.
\<close>

theorem C2_progress_cond_panics: "progress_cond 1 5 = Inl DivideByZero"
  by (simp add: progress_cond_def signed_modulo_int_def)

text \<open>
  The same happens for every case count below 20 at every case index that is not a
  multiple of 1000; with \<open>N \<ge> 2\<close> cases generated, index 1 is reached.
\<close>

lemma progress_cond_small_N:
  assumes "0 \<le> n" "n < 20" "0 < i" "i < 1000"
  shows "progress_cond i n = Inl DivideByZero"
proof -
  from assms(1,2) have "n sdiv 20 = 0"
    by (simp add: signed_divide_int_def)
  moreover from assms(3,4) have "i smod 1000 \<noteq> 0"
    by (simp add: signed_modulo_int_def sgn_if)
  ultimately show ?thesis by (simp add: progress_cond_def)
qed

subsection \<open>The Case Runner\<close>

lemma scan_rows_all: "scan_rows (map Inr results) = Inr results"
  by (induction results) auto

text \<open>
  C10.  For every query \<open>q\<close>, \<^verbatim>\<open>runOneEstCase\<close> sends one statement to the instance,
  the text \<^verbatim>\<open>EXPLAIN ANALYZE\<close> and a blank followed by \<open>q\<close>.  When the statement
  succeeds, the column types are read and every row scans, the rows scanned and the
  version of the instance are what \<^verbatim>\<open>ExtractEstResult\<close> is called with; its result is
  the result of the runner (after the deferred \<^verbatim>\<open>rows.Close()\<close>, whose error takes
  the place of a success).  \<^verbatim>\<open>ExtractEstResult\<close> is a field of the world, so the
  statement holds for every extraction function.
\<close>

theorem C10_runOneEstCase:
  "fst (runOneEstCase w ins q) = [''EXPLAIN ANALYZE '' @ q] \<and>
   (Query ins (''EXPLAIN ANALYZE '' @ q) = Inr rows \<and> ColumnTypes rows = Inr nCols \<and>
      Scans rows = map Inr results \<longrightarrow>
      snd (runOneEstCase w ins q) = close_rows rows (ExtractEstResult w results (Version ins)))"
  by (simp add: runOneEstCase_def Let_def scan_rows_all)

theorem C10_runOneEstCase_witness:
  "runOneEstCase (scenario opt_e2e) (instance_of \<lparr>InsLabel = ''tidb''\<rparr>) ''SELECT 1'' =
     ([''EXPLAIN ANALYZE SELECT 1''], Inr (1, 1))"
proof -
  let ?ins = "instance_of \<lparr>InsLabel = ''tidb''\<rparr>"
  have q: "Query ?ins (''EXPLAIN ANALYZE '' @ ''SELECT 1'') = Inr plan_rows"
    by (simp add: instance_of_def)
  have c: "ColumnTypes plan_rows = Inr 2"
    by (simp add: plan_rows_def)
  have s: "Scans plan_rows = map Inr [[''TableReader_5'', ''1.00'']]"
    by (simp add: plan_rows_def)
  have x: "close_rows plan_rows
             (ExtractEstResult (scenario opt_e2e) [[''TableReader_5'', ''1.00'']] (Version ?ins))
           = Inr (1, 1)"
    by (simp add: close_rows_def plan_rows_def scenario_def)
  from C10_runOneEstCase [of "scenario opt_e2e" ?ins "''SELECT 1''" plan_rows 2
      "[[''TableReader_5'', ''1.00'']]"] q c s x
  show ?thesis by (simp add: prod_eq_iff)
qed

subsection \<open>The error slots after the join\<close>

lemma first_err_None: "first_err es = None \<longleftrightarrow> (\<forall>i<length es. es ! i = None)"
  by (induction es rule: first_err.induct) (auto simp: nth_Cons split: nat.splits)

lemma first_err_first:
  "i < length es \<Longrightarrow> es ! i = Some e \<Longrightarrow> \<forall>j<i. es ! j = None \<Longrightarrow> first_err es = Some e"
proof (induction es arbitrary: i rule: first_err.induct)
  case 1
  then show ?case by simp
next
  case (2 err rest)
  have "i = 0"
  proof (rule ccontr)
    assume "i \<noteq> 0"
    then have "0 < i" by simp
    with "2.prems"(3) have "(Some err # rest) ! 0 = None" by blast
    then show False by simp
  qed
  with "2.prems"(2) show ?case by simp
next
  case (3 rest)
  from "3.prems"(2) obtain i' where i': "i = Suc i'" by (cases i) auto
  have "\<forall>j<i'. rest ! j = None"
  proof (intro allI impI)
    fix j assume "j < i'"
    then have "Suc j < i" using i' by simp
    with "3.prems"(3) have "(None # rest) ! Suc j = None" by blast
    then show "rest ! j = None" by simp
  qed
  with "3.prems" i' have "first_err rest = Some e"
    by (intro "3.IH" [of i']) auto
  then show ?case by simp
qed

text \<open>
  C6.  Take a run that gets as far as the join: the file is read, the configuration
  decodes, the instances connect, the datasets are built and the workers join in the
  shared state \<open>g\<close>; and the process is not ended by the panic of a worker before the
  function returns (no worker has panicked, or the process lives long enough after the
  panic).  If slot \<open>i\<close> of \<^verbatim>\<open>insErrs\<close> holds an error and no slot before it does, the
  run returns that error; if no slot holds an error, the run returns what the report
  returns for the configuration and the collector.
\<close>

theorem C6_first_error:
  assumes "ReadFile w confPath = Inr content"
    and "DecodeOption w content = Inr opt"
    and "ConnectToInstances w (Instances opt) = (instances, None)"
    and "build_datasets w opt instances = Ok datasets"
    and "run_workers w opt instances datasets sched grace = Joined g f"
    and "case f of Alive \<Rightarrow> True | Dying p k \<Rightarrow> length instances + 2 \<le> k"
  shows "(i < length (insErrs g) \<and> insErrs g ! i = Some err \<and> (\<forall>j<i. insErrs g ! j = None) \<longrightarrow>
            RunCETestWithConfig w sched grace confPath = Return (Some err) [0..<length instances]) \<and>
         ((\<forall>j<length (insErrs g). insErrs g ! j = None) \<longrightarrow>
            RunCETestWithConfig w sched grace confPath =
              Return (GenPErrorBarChartsReport w opt (collector g)) [0..<length instances])"
proof -
  let ?result = "case first_err (insErrs g) of Some err \<Rightarrow> Some err
                 | None \<Rightarrow> GenPErrorBarChartsReport w opt (collector g)"
  from assms(6) have "finish w opt (length instances) g f = Return ?result [0..<length instances]"
    by (cases f) (simp_all add: finish_def)
  with assms(1-5) have "RunCETestWithConfig w sched grace confPath =
      Return ?result [0..<length instances]"
    by (simp add: RunCETestWithConfig_def)
  then show ?thesis
    by (auto simp: first_err_first first_err_None [symmetric])
qed

text \<open>
  Two instances and one case: every statement fails on instance 0, whose worker stores
  the error; the workers join, and the run returns that error with both instances
  closed.
\<close>

theorem C6_first_error_witness:
  "RunCETestWithConfig (scenario cfg_one_down) [1, 0, 0, 1] 0 ''conf.toml'' =
     Return (Some (Trace (Errorf ''connection refused''))) [0, 1]"
proof -
  let ?w = "scenario cfg_one_down"
  let ?is = "instances_of cfg_one_down"
  let ?ds = "datasets_of cfg_one_down"
  let ?g = "\<lparr>collector = [[[[]]], [[[(1, 1)]]]],
             insErrs = [Some (Trace (Errorf ''connection refused'')), None],
             stdout = [(''mock'', ''tidb'', ''single-col-point-query'', 0, 1),
                       (''mock'', ''down'', ''single-col-point-query'', 0, 1)],
             sent = [(0, ''EXPLAIN ANALYZE SELECT * FROM mock WHERE a = 1 -- single-col-point-query''),
                     (1, ''EXPLAIN ANALYZE SELECT * FROM mock WHERE a = 1 -- single-col-point-query'')]\<rparr>
            :: (nat \<times> nat) gstate"
  have r: "ReadFile ?w ''conf.toml'' = Inr ''conf''" by (simp add: scenario_def)
  have d: "DecodeOption ?w ''conf'' = Inr cfg_one_down" by code_simp
  have c: "ConnectToInstances ?w (Instances cfg_one_down) = (?is, None)"
    by (simp add: scenario_def instances_of_def)
  have b: "build_datasets ?w cfg_one_down ?is = Ok ?ds"
    by (simp add: build_datasets_def cfg_one_down_def config_def scenario_def datasetMap_def
        instances_of_def datasets_of_def)
  have j: "run_workers ?w cfg_one_down ?is ?ds [1, 0, 0, 1] 0 = Joined ?g Alive"
    by code_simp
  have f: "case Alive of Alive \<Rightarrow> True | Dying p k \<Rightarrow> length ?is + 2 \<le> k"
    by simp
  have l: "[0..<length ?is] = [0, 1]" by code_simp
  from C6_first_error [OF r d c b j f, of 0 "Trace (Errorf ''connection refused'')"]
  show ?thesis unfolding l by simp
qed

subsection \<open>Dataset names\<close>

text \<open>
  With an instance and no dataset, \<^verbatim>\<open>datasets\<close> is made with no entry and the first
  assignment \<^verbatim>\<open>datasets[0] = ...\<close> is out of range.
\<close>

lemma build_datasets_no_dataset:
  "Datasets opt = [] \<Longrightarrow> build_datasets w opt (ins # inss) = Pan IndexOutOfRange"
  by (simp add: build_datasets_def)

lemma check_datasets_None:
  "check_datasets w dss = None \<longleftrightarrow> (\<forall>ds\<in>set dss. datasetMap w (ToLower w (Name ds)) \<noteq> None)"
  by (induction dss) auto

lemma build_row_nil:
  "j < length ds \<Longrightarrow> datasetMap w (Name (ds ! j)) = None \<Longrightarrow>
   \<forall>k<j. \<exists>new x. datasetMap w (Name (ds ! k)) = Some new \<and> new (ds ! k) ins = Inr x \<Longrightarrow>
   build_row w ins ds = Pan NilFuncCall"
proof (induction ds arbitrary: j)
  case Nil
  then show ?case by simp
next
  case (Cons d ds)
  show ?case
  proof (cases j)
    case 0
    with Cons.prems show ?thesis by simp
  next
    case (Suc j')
    from Cons.prems(3) Suc obtain new x where
      n: "datasetMap w (Name d) = Some new" "new d ins = Inr x"
      by fastforce
    have "\<forall>k<j'. \<exists>new x. datasetMap w (Name (ds ! k)) = Some new \<and> new (ds ! k) ins = Inr x"
    proof (intro allI impI)
      fix k assume "k < j'"
      then have "Suc k < j" using Suc by simp
      with Cons.prems(3)
      show "\<exists>new x. datasetMap w (Name (ds ! k)) = Some new \<and> new (ds ! k) ins = Inr x"
        by fastforce
    qed
    with Cons.prems Suc have "build_row w ins ds = Pan NilFuncCall"
      by (intro Cons.IH [of j']) auto
    with n show ?thesis by simp
  qed
qed

text \<open>
  C3, amended.  \<^verbatim>\<open>DecodeOption\<close> looks the lowercased name up, dataset construction
  the name as written.  Take a configuration that the TOML decoder accepts and in which
  every dataset name is a registered kind after lowercasing: \<^verbatim>\<open>DecodeOption\<close>
  succeeds, whatever the names are as written.  If moreover the file is read, the name
  at index \<open>j\<close> is not registered as written, at least one instance is connected and the
  constructors of the datasets before \<open>j\<close> succeed for the first instance, then dataset
  construction calls the nil constructor and the run ends in a panic, after the deferred
  close of the instances, not in a configuration error.
\<close>

theorem C3_nil_constructor:
  assumes "toml_Decode w content = Inr opt"
    and "\<forall>ds\<in>set (Datasets opt). datasetMap w (ToLower w (Name ds)) \<noteq> None"
  shows "DecodeOption w content = Inr opt \<and>
         (ReadFile w confPath = Inr content \<and>
          j < length (Datasets opt) \<and>
          datasetMap w (Name (Datasets opt ! j)) = None \<and>
          ConnectToInstances w (Instances opt) = (ins # inss, None) \<and>
          (\<forall>k<j. \<exists>new x. datasetMap w (Name (Datasets opt ! k)) = Some new \<and>
                        new (Datasets opt ! k) ins = Inr x) \<longrightarrow>
          RunCETestWithConfig w sched grace confPath =
            MainPanic NilFuncCall [0..<length (ins # inss)])"
proof -
  from assms(2) have "check_datasets w (Datasets opt) = None"
    by (simp only: check_datasets_None)
  with assms(1) have d: "DecodeOption w content = Inr opt"
    by (simp add: DecodeOption_def)
  have "RunCETestWithConfig w sched grace confPath = MainPanic NilFuncCall [0..<length (ins # inss)]"
    if r: "ReadFile w confPath = Inr content"
      and j: "j < length (Datasets opt)" "datasetMap w (Name (Datasets opt ! j)) = None"
      and c: "ConnectToInstances w (Instances opt) = (ins # inss, None)"
      and k: "\<forall>k<j. \<exists>new x. datasetMap w (Name (Datasets opt ! k)) = Some new \<and>
                        new (Datasets opt ! k) ins = Inr x"
  proof -
    from j k have "build_row w ins (Datasets opt) = Pan NilFuncCall"
      by (rule build_row_nil)
    moreover from j(1) have "0 < length (ins # inss) * length (Datasets opt)"
      by (cases "Datasets opt") auto
    ultimately have "build_datasets w opt (ins # inss) = Pan NilFuncCall"
      by (simp add: build_datasets_def)
    with r c d show ?thesis
      by (simp add: RunCETestWithConfig_def)
  qed
  with d show ?thesis by blast
qed

text \<open>
  C3 as stated fails: the configuration with the one dataset name \<open>Mock\<close> and no
  instance contains a name that is a registered kind only after lowercasing, it decodes,
  and the run returns without an error: with no instance, no constructor is looked up.
\<close>

theorem C3_counterexample:
  "datasetMap (scenario cfg_capital_no_instance) (Name (Datasets cfg_capital_no_instance ! 0)) = None \<and>
   datasetMap (scenario cfg_capital_no_instance)
     (ToLower (scenario cfg_capital_no_instance) (Name (Datasets cfg_capital_no_instance ! 0))) \<noteq> None \<and>
   DecodeOption (scenario cfg_capital_no_instance) ''conf'' = Inr cfg_capital_no_instance \<and>
   RunCETestWithConfig (scenario cfg_capital_no_instance) [] 0 ''conf.toml'' = Return None []"
  by code_simp

text \<open>
  The dataset names \<open>mock\<close> and \<open>Mock\<close> with one instance: the configuration decodes,
  the first dataset is built, and the lookup of \<open>Mock\<close> gives the nil constructor.
\<close>

theorem C3_nil_constructor_witness:
  "DecodeOption (scenario cfg_capital) ''conf'' = Inr cfg_capital \<and>
   RunCETestWithConfig (scenario cfg_capital) [] 0 ''conf.toml'' = MainPanic NilFuncCall [0]"
proof -
  let ?w = "scenario cfg_capital"
  have r: "ReadFile ?w ''conf.toml'' = Inr ''conf''" by (simp add: scenario_def)
  have t: "toml_Decode ?w ''conf'' = Inr cfg_capital" by (simp add: scenario_def)
  have a: "\<forall>ds\<in>set (Datasets cfg_capital). datasetMap ?w (ToLower ?w (Name ds)) \<noteq> None"
    by code_simp
  have j: "1 < length (Datasets cfg_capital)" by (simp add: cfg_capital_def config_def)
  have n: "datasetMap ?w (Name (Datasets cfg_capital ! 1)) = None" by code_simp
  have c: "ConnectToInstances ?w (Instances cfg_capital) =
             (instance_of \<lparr>InsLabel = ''tidb''\<rparr> # [], None)"
    by (simp add: scenario_def cfg_capital_def config_def)
  have k: "\<forall>k<1. \<exists>new x. datasetMap ?w (Name (Datasets cfg_capital ! k)) = Some new \<and>
             new (Datasets cfg_capital ! k) (instance_of \<lparr>InsLabel = ''tidb''\<rparr>) = Inr x"
    by (simp add: scenario_def cfg_capital_def config_def datasetMap_def)
  from C3_nil_constructor [OF t a, of "''conf.toml''" 1 "instance_of \<lparr>InsLabel = ''tidb''\<rparr>" "[]" "[]" 0]
    r j n c k
  show ?thesis by simp
qed

subsection \<open>Schedules\<close>

text \<open>
  An interleaving is a permutation of the effects of the workers that keeps the order
  of the effects of each worker.
\<close>

lemma interleave_Nil: "interleave ks [] = []"
  by (induction ks) auto

lemma interleave_single: "interleave ks [t] = t"
  by (induction ks arbitrary: t) auto

lemma concat_update:
  "k < length tss \<Longrightarrow> concat (tss[k := t]) = concat (take k tss) @ t @ concat (drop (Suc k) tss)"
  by (simp add: upd_conv_take_nth_drop)

lemma concat_nth:
  "k < length tss \<Longrightarrow> concat tss = concat (take k tss) @ tss ! k @ concat (drop (Suc k) tss)"
  using concat_update [of k tss "tss ! k"] by simp

lemma mset_interleave: "mset (interleave ks tss) = mset (concat tss)"
proof (induction ks arbitrary: tss)
  case Nil
  show ?case by simp
next
  case (Cons k ks)
  show ?case
  proof (cases "k < length tss \<and> tss ! k \<noteq> []")
    case True
    then obtain x t where xt: "tss ! k = x # t" by (cases "tss ! k") auto
    from True have "mset (concat (tss[k := t])) + {#x#} = mset (concat tss)"
      by (simp add: concat_update concat_nth [of k tss] xt)
    with True xt Cons.IH [of "tss[k := t]"] show ?thesis by simp
  next
    case False
    with Cons.IH show ?thesis by auto
  qed
qed

lemma set_interleave: "set (interleave ks tss) = set (concat tss)"
  using mset_interleave [of ks tss] by (metis set_mset_mset)

subsection \<open>The order of the cases of one instance\<close>

text \<open>
  The effects of a worker that send a statement or add a result are a prefix of the
  effects of the cases in the configured order, and all of them when the worker does
  not end early.
\<close>

lemma fst_runOneEstCase: "fst (runOneEstCase w ins q) = [''EXPLAIN ANALYZE '' @ q]"
  by (simp add: runOneEstCase_def Let_def)

lemma progress_out_no_case:
  "(if b then progress_line opt insIdx dsIdx qt i else Inr []) = Inr out \<Longrightarrow>
   filter (case_effect_of k) out = []"
  by (auto simp: progress_line_def split: if_splits)

lemma cases_of_simps:
  "cases_of dsIdx qtIdx i [] = []"
  "cases_of dsIdx qtIdx i (q # qs) = (dsIdx, qtIdx, i, q) # cases_of dsIdx qtIdx (Suc i) qs"
  by (simp_all add: cases_of_def)

lemma qts_order_simps:
  "qts_order opt ds dsIdx qtIdx [] = []"
  "qts_order opt ds dsIdx qtIdx (qt # qts) =
     (case GenCases ds (N opt) qt of Inl err \<Rightarrow> [] | Inr qs \<Rightarrow> cases_of dsIdx qtIdx 0 qs)
     @ qts_order opt ds dsIdx (Suc qtIdx) qts"
  by (simp_all add: qts_order_def)

lemma dss_order_simps:
  "dss_order opt row [] = []"
  "dss_order opt row (dsIdx # idxs) =
     qts_order opt (row ! dsIdx) dsIdx 0 (QueryTypes opt) @ dss_order opt row idxs"
  by (simp_all add: dss_order_def)

lemma worker_cases_order:
  "worker_cases w opt ins insIdx dsIdx qtIdx qt i qs = (ended, es) \<Longrightarrow>
   prefix (filter (case_effect_of insIdx) es)
     (concat (map (case_effects w ins insIdx) (cases_of dsIdx qtIdx i qs))) \<and>
   (\<not> ended \<longrightarrow> filter (case_effect_of insIdx) es =
      concat (map (case_effects w ins insIdx) (cases_of dsIdx qtIdx i qs)))"
proof (induction qs arbitrary: i ended es)
  case Nil
  then show ?case by (simp add: cases_of_simps)
next
  case (Cons q qs)
  obtain sqls res where run: "runOneEstCase w ins q = (sqls, res)"
    by (cases "runOneEstCase w ins q")
  with fst_runOneEstCase [of w ins q] have sqls: "sqls = [''EXPLAIN ANALYZE '' @ q]" by simp
  show ?case
  proof (cases "progress_cond (int i) (N opt)")
    case (Inl p)
    with Cons.prems show ?thesis by auto
  next
    case (Inr b)
    show ?thesis
    proof (cases "if b then progress_line opt insIdx dsIdx qt i else (Inr [] :: panic + 'a effect list)")
      case (Inl p)
      with Cons.prems \<open>progress_cond (int i) (N opt) = Inr b\<close> show ?thesis by auto
    next
      case out: (Inr out)
      then have no: "filter (case_effect_of insIdx) out = []"
        by (rule progress_out_no_case)
      show ?thesis
      proof (cases res)
        case (Inl err)
        with Cons.prems Inr out run sqls no show ?thesis by (auto simp: cases_of_simps)
      next
        case r: (Inr r)
        obtain ended' es' where rec: "worker_cases w opt ins insIdx dsIdx qtIdx qt (Suc i) qs = (ended', es')"
          by (cases "worker_cases w opt ins insIdx dsIdx qtIdx qt (Suc i) qs")
        from Cons.IH [OF rec] Cons.prems Inr out run sqls no r rec show ?thesis
          by (auto simp: cases_of_simps)
      qed
    qed
  qed
qed

lemma worker_qts_order:
  "worker_qts w opt ins ds insIdx dsIdx qtIdx qts = (ended, es) \<Longrightarrow>
   prefix (filter (case_effect_of insIdx) es)
     (concat (map (case_effects w ins insIdx) (qts_order opt ds dsIdx qtIdx qts))) \<and>
   (\<not> ended \<longrightarrow> filter (case_effect_of insIdx) es =
      concat (map (case_effects w ins insIdx) (qts_order opt ds dsIdx qtIdx qts)))"
proof (induction qts arbitrary: qtIdx ended es)
  case Nil
  then show ?case by (simp add: qts_order_simps)
next
  case (Cons qt qts)
  show ?case
  proof (cases "GenCases ds (N opt) qt")
    case (Inl err)
    with Cons.prems show ?thesis by auto
  next
    case (Inr qs)
    obtain e1 es1 where c: "worker_cases w opt ins insIdx dsIdx qtIdx qt 0 qs = (e1, es1)"
      by (cases "worker_cases w opt ins insIdx dsIdx qtIdx qt 0 qs")
    note o = worker_cases_order [OF c]
    show ?thesis
    proof (cases e1)
      case True
      with Cons.prems Inr c o show ?thesis
        by (auto simp: qts_order_simps)
    next
      case False
      obtain e2 es2 where rec: "worker_qts w opt ins ds insIdx dsIdx (Suc qtIdx) qts = (e2, es2)"
        by (cases "worker_qts w opt ins ds insIdx dsIdx (Suc qtIdx) qts")
      from Cons.IH [OF rec] Cons.prems Inr c o False rec show ?thesis
        by (auto simp: qts_order_simps)
    qed
  qed
qed

lemma worker_dss_order:
  "worker_dss w opt ins row insIdx idxs = (ended, es) \<Longrightarrow>
   prefix (filter (case_effect_of insIdx) es)
     (concat (map (case_effects w ins insIdx) (dss_order opt row idxs))) \<and>
   (\<not> ended \<longrightarrow> filter (case_effect_of insIdx) es =
      concat (map (case_effects w ins insIdx) (dss_order opt row idxs)))"
proof (induction idxs arbitrary: ended es)
  case Nil
  then show ?case by (simp add: dss_order_simps)
next
  case (Cons dsIdx idxs)
  show ?case
  proof (cases "dsIdx < length row")
    case False
    with Cons.prems show ?thesis by auto
  next
    case True
    obtain e1 es1 where c: "worker_qts w opt ins (row ! dsIdx) insIdx dsIdx 0 (QueryTypes opt) = (e1, es1)"
      by (cases "worker_qts w opt ins (row ! dsIdx) insIdx dsIdx 0 (QueryTypes opt)")
    note o = worker_qts_order [OF c]
    show ?thesis
    proof (cases e1)
      case e: True
      with Cons.prems True c o show ?thesis
        by (auto simp: dss_order_simps)
    next
      case e: False
      obtain e2 es2 where rec: "worker_dss w opt ins row insIdx idxs = (e2, es2)"
        by (cases "worker_dss w opt ins row insIdx idxs")
      from Cons.IH [OF rec] Cons.prems True c o e rec show ?thesis
        by (auto simp: dss_order_simps)
    qed
  qed
qed

lemma worker_order:
  "prefix (filter (case_effect_of insIdx) (worker w opt instances datasets insIdx))
     (concat (map (case_effects w (instances ! insIdx) insIdx) (case_order opt (datasets ! insIdx))))"
proof -
  obtain ended es where
    d: "worker_dss w opt (instances ! insIdx) (datasets ! insIdx) insIdx [0..<length (Datasets opt)] = (ended, es)"
    by (cases "worker_dss w opt (instances ! insIdx) (datasets ! insIdx) insIdx [0..<length (Datasets opt)]")
  from worker_dss_order [OF d] d show ?thesis
    by (simp add: worker_def case_order_def)
qed

text \<open>A worker that ends early has stored an error or panicked.\<close>

lemma worker_cases_ended:
  "worker_cases w opt ins insIdx dsIdx qtIdx qt i qs = (True, es) \<Longrightarrow> \<exists>e\<in>set es. ends_worker e"
proof (induction qs arbitrary: i es)
  case Nil
  then show ?case by simp
next
  case (Cons q qs)
  obtain e' es' where rec: "worker_cases w opt ins insIdx dsIdx qtIdx qt (Suc i) qs = (e', es')"
    by (cases "worker_cases w opt ins insIdx dsIdx qtIdx qt (Suc i) qs")
  show ?case
  proof (cases e')
    case True
    with rec Cons.IH [of "Suc i" es'] have "\<exists>e\<in>set es'. ends_worker e" by simp
    with Cons.prems rec show ?thesis
      by (auto split: sum.splits prod.splits)
  next
    case False
    with Cons.prems rec show ?thesis
      by (auto split: sum.splits prod.splits)
  qed
qed

lemma worker_qts_ended:
  "worker_qts w opt ins ds insIdx dsIdx qtIdx qts = (True, es) \<Longrightarrow> \<exists>e\<in>set es. ends_worker e"
proof (induction qts arbitrary: qtIdx es)
  case Nil
  then show ?case by simp
next
  case (Cons qt qts)
  obtain e2 es2 where rec: "worker_qts w opt ins ds insIdx dsIdx (Suc qtIdx) qts = (e2, es2)"
    by (cases "worker_qts w opt ins ds insIdx dsIdx (Suc qtIdx) qts")
  have ih: "e2 \<Longrightarrow> \<exists>e\<in>set es2. ends_worker e"
    using rec Cons.IH [of "Suc qtIdx" es2] by simp
  show ?case
  proof (cases "GenCases ds (N opt) qt")
    case (Inl err)
    with Cons.prems show ?thesis by auto
  next
    case (Inr qs)
    obtain e1 es1 where c: "worker_cases w opt ins insIdx dsIdx qtIdx qt 0 qs = (e1, es1)"
      by (cases "worker_cases w opt ins insIdx dsIdx qtIdx qt 0 qs")
    show ?thesis
    proof (cases e1)
      case True
      with c have "\<exists>e\<in>set es1. ends_worker e" by (simp add: worker_cases_ended)
      with Cons.prems Inr c True show ?thesis by auto
    next
      case False
      with Cons.prems Inr c rec have "e2" "es = es1 @ es2" by auto
      with ih show ?thesis by auto
    qed
  qed
qed

lemma worker_dss_ended:
  "worker_dss w opt ins row insIdx idxs = (True, es) \<Longrightarrow> \<exists>e\<in>set es. ends_worker e"
proof (induction idxs arbitrary: es)
  case Nil
  then show ?case by simp
next
  case (Cons dsIdx idxs)
  obtain e2 es2 where rec: "worker_dss w opt ins row insIdx idxs = (e2, es2)"
    by (cases "worker_dss w opt ins row insIdx idxs")
  have ih: "e2 \<Longrightarrow> \<exists>e\<in>set es2. ends_worker e"
    using rec Cons.IH [of es2] by simp
  obtain e1 es1 where c: "worker_qts w opt ins (row ! dsIdx) insIdx dsIdx 0 (QueryTypes opt) = (e1, es1)"
    by (cases "worker_qts w opt ins (row ! dsIdx) insIdx dsIdx 0 (QueryTypes opt)")
  show ?case
  proof (cases "dsIdx < length row")
    case False
    with Cons.prems show ?thesis by auto
  next
    case inrange: True
    show ?thesis
    proof (cases e1)
      case True
      with c have "\<exists>e\<in>set es1. ends_worker e" by (simp add: worker_qts_ended)
      with Cons.prems inrange c True show ?thesis by auto
    next
      case False
      with Cons.prems inrange c rec have "e2" "es = es1 @ es2" by auto
      with ih show ?thesis by auto
    qed
  qed
qed

lemma worker_order_full:
  assumes "\<forall>e\<in>set (worker w opt instances datasets insIdx). \<not> ends_worker e"
  shows "filter (case_effect_of insIdx) (worker w opt instances datasets insIdx) =
     concat (map (case_effects w (instances ! insIdx) insIdx) (case_order opt (datasets ! insIdx)))"
proof -
  obtain ended es where
    d: "worker_dss w opt (instances ! insIdx) (datasets ! insIdx) insIdx [0..<length (Datasets opt)] = (ended, es)"
    by (cases "worker_dss w opt (instances ! insIdx) (datasets ! insIdx) insIdx [0..<length (Datasets opt)]")
  with assms have "\<not> ended"
    using worker_dss_ended [of w opt "instances ! insIdx" "datasets ! insIdx" insIdx
        "[0..<length (Datasets opt)]" es]
    by (cases ended) (auto simp: worker_def)
  with worker_dss_order [OF d] d show ?thesis
    by (simp add: worker_def case_order_def)
qed

text \<open>Every effect of worker \<open>insIdx\<close> is an effect of goroutine \<open>insIdx\<close>.\<close>

lemma own_Send: "\<forall>e\<in>set (map (Send insIdx) sqls). goroutine e = insIdx"
  by simp

lemma progress_out_own:
  "(if b then progress_line opt insIdx dsIdx qt i else Inr []) = Inr out \<Longrightarrow>
   \<forall>e\<in>set out. goroutine e = insIdx"
  by (auto simp: progress_line_def split: if_splits)

lemma worker_cases_own:
  "worker_cases w opt ins insIdx dsIdx qtIdx qt i qs = (ended, es) \<Longrightarrow>
   \<forall>e\<in>set es. goroutine e = insIdx"
proof (induction qs arbitrary: i ended es)
  case Nil
  then show ?case by simp
next
  case (Cons q qs)
  obtain e' es' where rec: "worker_cases w opt ins insIdx dsIdx qtIdx qt (Suc i) qs = (e', es')"
    by (cases "worker_cases w opt ins insIdx dsIdx qtIdx qt (Suc i) qs")
  from Cons.IH [OF rec] Cons.prems rec show ?case
    by (auto split: sum.splits prod.splits if_splits simp: progress_line_def)
qed

lemma worker_qts_own:
  "worker_qts w opt ins ds insIdx dsIdx qtIdx qts = (ended, es) \<Longrightarrow>
   \<forall>e\<in>set es. goroutine e = insIdx"
proof (induction qts arbitrary: qtIdx ended es)
  case Nil
  then show ?case by simp
next
  case (Cons qt qts)
  obtain e2 es2 where rec: "worker_qts w opt ins ds insIdx dsIdx (Suc qtIdx) qts = (e2, es2)"
    by (cases "worker_qts w opt ins ds insIdx dsIdx (Suc qtIdx) qts")
  note ih = Cons.IH [OF rec]
  show ?case
  proof (cases "GenCases ds (N opt) qt")
    case (Inl err)
    with Cons.prems show ?thesis by auto
  next
    case (Inr qs)
    obtain e1 es1 where c: "worker_cases w opt ins insIdx dsIdx qtIdx qt 0 qs = (e1, es1)"
      by (cases "worker_cases w opt ins insIdx dsIdx qtIdx qt 0 qs")
    from worker_cases_own [OF c] ih Cons.prems Inr c rec show ?thesis
      by (cases e1) auto
  qed
qed

lemma worker_dss_own:
  "worker_dss w opt ins row insIdx idxs = (ended, es) \<Longrightarrow>
   \<forall>e\<in>set es. goroutine e = insIdx"
proof (induction idxs arbitrary: ended es)
  case Nil
  then show ?case by simp
next
  case (Cons dsIdx idxs)
  obtain e2 es2 where rec: "worker_dss w opt ins row insIdx idxs = (e2, es2)"
    by (cases "worker_dss w opt ins row insIdx idxs")
  note ih = Cons.IH [OF rec]
  obtain e1 es1 where c: "worker_qts w opt ins (row ! dsIdx) insIdx dsIdx 0 (QueryTypes opt) = (e1, es1)"
    by (cases "worker_qts w opt ins (row ! dsIdx) insIdx dsIdx 0 (QueryTypes opt)")
  from worker_qts_own [OF c] ih Cons.prems c rec show ?case
    by (cases e1) (auto split: if_splits)
qed

lemma worker_own: "\<forall>e\<in>set (worker w opt instances datasets insIdx). goroutine e = insIdx"
  using worker_dss_own [of w opt "instances ! insIdx" "datasets ! insIdx" insIdx
      "[0..<length (Datasets opt)]"]
  by (cases "worker_dss w opt (instances ! insIdx) (datasets ! insIdx) insIdx
      [0..<length (Datasets opt)]") (simp add: worker_def)

lemma filter_none: "\<forall>e\<in>set es. \<not> P e \<Longrightarrow> filter P es = []"
  by (induction es) auto

lemma filter_all: "\<forall>e\<in>set es. P e \<Longrightarrow> filter P es = es"
  by (induction es) auto

lemma case_effect_goroutine: "case_effect_of k e \<Longrightarrow> goroutine e = k"
  by (cases e) auto

lemma filter_concat_others:
  assumes "i < length tss" and "\<forall>j<length tss. j \<noteq> i \<longrightarrow> filter P (tss ! j) = []"
  shows "filter P (concat tss) = filter P (tss ! i)"
proof -
  have a: "filter P (concat (take i tss)) = []"
  proof -
    have "\<forall>t\<in>set (take i tss). filter P t = []"
    proof
      fix t assume "t \<in> set (take i tss)"
      then obtain j where "j < length (take i tss)" "take i tss ! j = t"
        by (auto simp: in_set_conv_nth)
      with assms show "filter P t = []" by auto
    qed
    then show ?thesis by (induction "take i tss") (auto simp: filter_concat)
  qed
  have b: "filter P (concat (drop (Suc i) tss)) = []"
  proof -
    have "\<forall>t\<in>set (drop (Suc i) tss). filter P t = []"
    proof
      fix t assume "t \<in> set (drop (Suc i) tss)"
      then obtain j where "j < length (drop (Suc i) tss)" "drop (Suc i) tss ! j = t"
        by (auto simp: in_set_conv_nth)
      with assms show "filter P t = []" by auto
    qed
    then show ?thesis by (induction "drop (Suc i) tss") (auto simp: filter_concat)
  qed
  from assms(1) a b show ?thesis
    by (subst concat_nth [of i tss]) simp_all
qed

lemma filter_interleave:
  "i < length tss \<Longrightarrow> \<forall>j<length tss. j \<noteq> i \<longrightarrow> filter P (tss ! j) = [] \<Longrightarrow>
   filter P (interleave ks tss) = filter P (tss ! i)"
proof (induction ks arbitrary: tss)
  case Nil
  then show ?case by (simp add: filter_concat_others)
next
  case (Cons k ks)
  show ?case
  proof (cases "k < length tss \<and> tss ! k \<noteq> []")
    case False
    with Cons show ?thesis by auto
  next
    case True
    then obtain x t where xt: "tss ! k = x # t" by (cases "tss ! k") auto
    let ?tss = "tss[k := t]"
    have others: "\<forall>j<length ?tss. j \<noteq> i \<longrightarrow> filter P (?tss ! j) = []"
    proof (intro allI impI)
      fix j assume j: "j < length ?tss" "j \<noteq> i"
      show "filter P (?tss ! j) = []"
      proof (cases "j = k")
        case True
        with j Cons.prems(2) xt have "filter P (x # t) = []" by auto
        then have "filter P t = []" by (auto split: if_splits)
        with True j show ?thesis by simp
      next
        case False
        with j Cons.prems(2) show ?thesis by simp
      qed
    qed
    from Cons.prems(1) have "i < length ?tss" by simp
    from Cons.IH [OF this others] have ih: "filter P (interleave ks ?tss) = filter P (?tss ! i)" .
    show ?thesis
    proof (cases "k = i")
      case True
      with ih xt \<open>k < length tss \<and> tss ! k \<noteq> []\<close> show ?thesis by simp
    next
      case False
      with Cons.prems(2) True xt have "filter P (x # t) = []" by auto
      then have "\<not> P x" by (auto split: if_splits)
      with ih xt False True show ?thesis by simp
    qed
  qed
qed

text \<open>In an interleaving of the workers, the effects of goroutine \<open>i\<close> are those of worker \<open>i\<close>.\<close>

lemma workers_projection:
  assumes "i < length instances"
    and "\<forall>e. P e \<longrightarrow> goroutine e = i"
  shows "filter P (interleave sched (map (worker w opt instances datasets) [0..<length instances])) =
         filter P (worker w opt instances datasets i)"
proof -
  let ?tss = "map (worker w opt instances datasets) [0..<length instances]"
  from assms(1) have i: "i < length ?tss" by simp
  have "\<forall>j<length ?tss. j \<noteq> i \<longrightarrow> filter P (?tss ! j) = []"
  proof (intro allI impI)
    fix j assume j: "j < length ?tss" "j \<noteq> i"
    have "\<forall>e\<in>set (worker w opt instances datasets j). \<not> P e"
      using worker_own [of w opt instances datasets j] assms(2) j(2) by auto
    then have "filter P (worker w opt instances datasets j) = []"
      by (rule filter_none)
    with j show "filter P (?tss ! j) = []" by simp
  qed
  with i have "filter P (interleave sched ?tss) = filter P (?tss ! i)"
    by (rule filter_interleave)
  with assms(1) show ?thesis by simp
qed

lemma workers_own_effects:
  assumes "i < length instances"
  shows "filter (\<lambda>e. goroutine e = i)
           (interleave sched (map (worker w opt instances datasets) [0..<length instances])) =
         worker w opt instances datasets i"
proof -
  have "filter (\<lambda>e. goroutine e = i)
           (interleave sched (map (worker w opt instances datasets) [0..<length instances])) =
        filter (\<lambda>e. goroutine e = i) (worker w opt instances datasets i)"
    using assms by (rule workers_projection) simp
  also have "\<dots> = worker w opt instances datasets i"
    using worker_own [of w opt instances datasets i] by (rule filter_all)
  finally show ?thesis .
qed

subsection \<open>Workers that do not panic\<close>

text \<open>
  For \<open>N = 1\<close> and for \<open>N \<ge> 20\<close> the progress condition has a value at every case
  index that occurs; then a worker panics only when the row of datasets is too short,
  and it ends early only when a generation or a case fails.
\<close>

lemma progress_cond_safe:
  assumes "progress_safe n" and "n = 1 \<longrightarrow> i = 0" and "0 \<le> i"
  shows "\<exists>b. progress_cond i n = Inr b"
proof (cases "20 \<le> n")
  case True
  then have "n div 20 \<noteq> 0" by simp
  with True have "n sdiv 20 \<noteq> 0"
    by (simp add: signed_divide_int_def sgn_if)
  then show ?thesis by (auto simp: progress_cond_def)
next
  case False
  with assms have "i = 0" by (simp add: progress_safe_def)
  then show ?thesis by (auto simp: progress_cond_def)
qed

lemma progress_line_ok:
  "dsIdx < length (Datasets opt) \<Longrightarrow> insIdx < length (Instances opt) \<Longrightarrow>
   \<exists>out. (if b then progress_line opt insIdx dsIdx qt i else Inr []) = Inr (out :: 'r effect list) \<and>
         (\<forall>e\<in>set out. \<not> ends_worker e \<and> \<not> is_Panic e)"
  by (simp add: progress_line_def)

lemma worker_cases_no_panic:
  assumes "progress_safe (N opt)" and "N opt = 1 \<longrightarrow> i + length qs \<le> 1"
    and "dsIdx < length (Datasets opt)" and "insIdx < length (Instances opt)"
    and "worker_cases w opt ins insIdx dsIdx qtIdx qt i qs = (ended, es)"
  shows "\<forall>e\<in>set es. \<not> is_Panic e"
  using assms(2,5)
proof (induction qs arbitrary: i ended es)
  case Nil
  then show ?case by simp
next
  case (Cons q qs)
  from Cons.prems(1) assms(1) obtain b where b: "progress_cond (int i) (N opt) = Inr b"
    using progress_cond_safe [of "N opt" "int i"] by auto
  from assms(3,4) obtain out :: "'a effect list" where
    out: "(if b then progress_line opt insIdx dsIdx qt i else Inr []) = Inr out"
      "\<forall>e\<in>set out. \<not> ends_worker e \<and> \<not> is_Panic e"
    using progress_line_ok [of dsIdx opt insIdx b qt i] by blast
  from Cons.prems(1) have n: "N opt = 1 \<longrightarrow> Suc i + length qs \<le> 1" by simp
  show ?case
  proof (cases "runOneEstCase w ins q")
    case (Pair sqls res)
    show ?thesis
    proof (cases res)
      case (Inl err)
      with Cons.prems(2) b out Pair show ?thesis by auto
    next
      case (Inr r)
      obtain e' es' where rec: "worker_cases w opt ins insIdx dsIdx qtIdx qt (Suc i) qs = (e', es')"
        by (cases "worker_cases w opt ins insIdx dsIdx qtIdx qt (Suc i) qs")
      from Cons.IH [OF n rec] Cons.prems(2) b out Pair Inr rec show ?thesis by auto
    qed
  qed
qed

lemma worker_cases_completes:
  assumes "progress_safe (N opt)" and "N opt = 1 \<longrightarrow> i + length qs \<le> 1"
    and "dsIdx < length (Datasets opt)" and "insIdx < length (Instances opt)"
    and "\<forall>q\<in>set qs. \<exists>r. snd (runOneEstCase w ins q) = Inr r"
    and "worker_cases w opt ins insIdx dsIdx qtIdx qt i qs = (ended, es)"
  shows "\<not> ended \<and> (\<forall>e\<in>set es. \<not> ends_worker e)"
  using assms(2,5,6)
proof (induction qs arbitrary: i ended es)
  case Nil
  then show ?case by simp
next
  case (Cons q qs)
  from Cons.prems(1) assms(1) obtain b where b: "progress_cond (int i) (N opt) = Inr b"
    using progress_cond_safe [of "N opt" "int i"] by auto
  from assms(3,4) obtain out :: "'a effect list" where
    out: "(if b then progress_line opt insIdx dsIdx qt i else Inr []) = Inr out"
      "\<forall>e\<in>set out. \<not> ends_worker e \<and> \<not> is_Panic e"
    using progress_line_ok [of dsIdx opt insIdx b qt i] by blast
  from Cons.prems(1) have n: "N opt = 1 \<longrightarrow> Suc i + length qs \<le> 1" by simp
  from Cons.prems(2) obtain r where r: "snd (runOneEstCase w ins q) = Inr r" by auto
  from Cons.prems(2) have rest: "\<forall>q\<in>set qs. \<exists>r. snd (runOneEstCase w ins q) = Inr r" by simp
  obtain sqls where run: "runOneEstCase w ins q = (sqls, Inr r)"
    using r by (cases "runOneEstCase w ins q") auto
  obtain e' es' where rec: "worker_cases w opt ins insIdx dsIdx qtIdx qt (Suc i) qs = (e', es')"
    by (cases "worker_cases w opt ins insIdx dsIdx qtIdx qt (Suc i) qs")
  from Cons.IH [OF n rest rec] Cons.prems(3) b out run rec show ?case by auto
qed

lemma worker_qts_no_panic:
  assumes "progress_safe (N opt)"
    and "dsIdx < length (Datasets opt)" and "insIdx < length (Instances opt)"
    and "\<forall>qt\<in>set qts. \<forall>qs. GenCases ds (N opt) qt = Inr qs \<longrightarrow> length qs = nat (N opt)"
    and "worker_qts w opt ins ds insIdx dsIdx qtIdx qts = (ended, es)"
  shows "\<forall>e\<in>set es. \<not> is_Panic e"
  using assms(4,5)
proof (induction qts arbitrary: qtIdx ended es)
  case Nil
  then show ?case by simp
next
  case (Cons qt qts)
  show ?case
  proof (cases "GenCases ds (N opt) qt")
    case (Inl err)
    with Cons.prems(2) show ?thesis by auto
  next
    case (Inr qs)
    with Cons.prems(1) have one: "N opt = 1 \<longrightarrow> 0 + length qs \<le> 1" by simp
    obtain e1 es1 where c: "worker_cases w opt ins insIdx dsIdx qtIdx qt 0 qs = (e1, es1)"
      by (cases "worker_cases w opt ins insIdx dsIdx qtIdx qt 0 qs")
    from worker_cases_no_panic [OF assms(1) one assms(2,3) c]
    have p1: "\<forall>e\<in>set es1. \<not> is_Panic e" .
    obtain e2 es2 where rec: "worker_qts w opt ins ds insIdx dsIdx (Suc qtIdx) qts = (e2, es2)"
      by (cases "worker_qts w opt ins ds insIdx dsIdx (Suc qtIdx) qts")
    from Cons.prems(1) have "\<forall>qt\<in>set qts. \<forall>qs. GenCases ds (N opt) qt = Inr qs \<longrightarrow> length qs = nat (N opt)"
      by simp
    from Cons.IH [OF this rec] Cons.prems(2) Inr c p1 rec show ?thesis
      by (cases e1) auto
  qed
qed

lemma worker_qts_completes:
  assumes "progress_safe (N opt)"
    and "dsIdx < length (Datasets opt)" and "insIdx < length (Instances opt)"
    and "\<forall>qt\<in>set qts. \<exists>qs. GenCases ds (N opt) qt = Inr qs \<and> length qs = nat (N opt) \<and>
           (\<forall>q\<in>set qs. \<exists>r. snd (runOneEstCase w ins q) = Inr r)"
    and "worker_qts w opt ins ds insIdx dsIdx qtIdx qts = (ended, es)"
  shows "\<not> ended \<and> (\<forall>e\<in>set es. \<not> ends_worker e)"
  using assms(4,5)
proof (induction qts arbitrary: qtIdx ended es)
  case Nil
  then show ?case by simp
next
  case (Cons qt qts)
  from Cons.prems(1) obtain qs where qs: "GenCases ds (N opt) qt = Inr qs" "length qs = nat (N opt)"
    "\<forall>q\<in>set qs. \<exists>r. snd (runOneEstCase w ins q) = Inr r" by auto
  then have one: "N opt = 1 \<longrightarrow> 0 + length qs \<le> 1" by simp
  obtain e1 es1 where c: "worker_cases w opt ins insIdx dsIdx qtIdx qt 0 qs = (e1, es1)"
    by (cases "worker_cases w opt ins insIdx dsIdx qtIdx qt 0 qs")
  from worker_cases_completes [OF assms(1) one assms(2,3) qs(3) c]
  have p1: "\<not> e1" "\<forall>e\<in>set es1. \<not> ends_worker e" by auto
  obtain e2 es2 where rec: "worker_qts w opt ins ds insIdx dsIdx (Suc qtIdx) qts = (e2, es2)"
    by (cases "worker_qts w opt ins ds insIdx dsIdx (Suc qtIdx) qts")
  from Cons.prems(1) have "\<forall>qt\<in>set qts. \<exists>qs. GenCases ds (N opt) qt = Inr qs \<and> length qs = nat (N opt) \<and>
           (\<forall>q\<in>set qs. \<exists>r. snd (runOneEstCase w ins q) = Inr r)" by simp
  from Cons.IH [OF this rec] Cons.prems(2) qs(1) c p1 rec show ?case by auto
qed

lemma worker_dss_no_panic:
  assumes "progress_safe (N opt)" and "insIdx < length (Instances opt)"
    and "\<forall>dsIdx\<in>set idxs. dsIdx < length row \<and> dsIdx < length (Datasets opt)"
    and "\<forall>ds\<in>set row. gen_contract opt ds"
    and "worker_dss w opt ins row insIdx idxs = (ended, es)"
  shows "\<forall>e\<in>set es. \<not> is_Panic e"
  using assms(3,5)
proof (induction idxs arbitrary: ended es)
  case Nil
  then show ?case by simp
next
  case (Cons dsIdx idxs)
  from Cons.prems(1) have d: "dsIdx < length row" "dsIdx < length (Datasets opt)" by auto
  then have "row ! dsIdx \<in> set row" by simp
  with assms(4) have "gen_contract opt (row ! dsIdx)" by blast
  then have g: "\<forall>qt\<in>set (QueryTypes opt). \<forall>qs. GenCases (row ! dsIdx) (N opt) qt = Inr qs \<longrightarrow>
      length qs = nat (N opt)"
    by (simp add: gen_contract_def)
  obtain e1 es1 where c: "worker_qts w opt ins (row ! dsIdx) insIdx dsIdx 0 (QueryTypes opt) = (e1, es1)"
    by (cases "worker_qts w opt ins (row ! dsIdx) insIdx dsIdx 0 (QueryTypes opt)")
  from worker_qts_no_panic [OF assms(1) d(2) assms(2) g c]
  have p1: "\<forall>e\<in>set es1. \<not> is_Panic e" .
  obtain e2 es2 where rec: "worker_dss w opt ins row insIdx idxs = (e2, es2)"
    by (cases "worker_dss w opt ins row insIdx idxs")
  from Cons.prems(1) have "\<forall>dsIdx\<in>set idxs. dsIdx < length row \<and> dsIdx < length (Datasets opt)"
    by simp
  from Cons.IH [OF this rec] Cons.prems(2) d c p1 rec show ?case
    by (cases e1) auto
qed

lemma worker_dss_completes:
  assumes "progress_safe (N opt)" and "insIdx < length (Instances opt)"
    and "\<forall>dsIdx\<in>set idxs. dsIdx < length row \<and> dsIdx < length (Datasets opt)"
    and "no_failures w opt ins row"
    and "worker_dss w opt ins row insIdx idxs = (ended, es)"
  shows "\<not> ended \<and> (\<forall>e\<in>set es. \<not> ends_worker e)"
  using assms(3,5)
proof (induction idxs arbitrary: ended es)
  case Nil
  then show ?case by simp
next
  case (Cons dsIdx idxs)
  from Cons.prems(1) have d: "dsIdx < length row" "dsIdx < length (Datasets opt)" by auto
  then have "row ! dsIdx \<in> set row" by simp
  with assms(4) have g: "\<forall>qt\<in>set (QueryTypes opt). \<exists>qs. GenCases (row ! dsIdx) (N opt) qt = Inr qs \<and>
      length qs = nat (N opt) \<and> (\<forall>q\<in>set qs. \<exists>r. snd (runOneEstCase w ins q) = Inr r)"
    unfolding no_failures_def by blast
  obtain e1 es1 where c: "worker_qts w opt ins (row ! dsIdx) insIdx dsIdx 0 (QueryTypes opt) = (e1, es1)"
    by (cases "worker_qts w opt ins (row ! dsIdx) insIdx dsIdx 0 (QueryTypes opt)")
  from worker_qts_completes [OF assms(1) d(2) assms(2) g c]
  have p1: "\<not> e1" "\<forall>e\<in>set es1. \<not> ends_worker e" by auto
  obtain e2 es2 where rec: "worker_dss w opt ins row insIdx idxs = (e2, es2)"
    by (cases "worker_dss w opt ins row insIdx idxs")
  from Cons.prems(1) have "\<forall>dsIdx\<in>set idxs. dsIdx < length row \<and> dsIdx < length (Datasets opt)"
    by simp
  from Cons.IH [OF this rec] Cons.prems(2) d c p1 rec show ?case by auto
qed

lemma worker_cases_effect_ok:
  assumes "insIdx < I" "dsIdx < D" "qtIdx < Q"
    and "worker_cases w opt ins insIdx dsIdx qtIdx qt i qs = (ended, es)"
  shows "\<forall>e\<in>set es. effect_ok I D Q e"
  using assms(4)
proof (induction qs arbitrary: i ended es)
  case Nil
  then show ?case by simp
next
  case (Cons q qs)
  obtain e' es' where rec: "worker_cases w opt ins insIdx dsIdx qtIdx qt (Suc i) qs = (e', es')"
    by (cases "worker_cases w opt ins insIdx dsIdx qtIdx qt (Suc i) qs")
  from Cons.IH [OF rec] Cons.prems rec assms(1-3) show ?case
    by (auto split: sum.splits prod.splits if_splits simp: progress_line_def)
qed

lemma worker_qts_effect_ok:
  assumes "insIdx < I" "dsIdx < D"
    and "qtIdx + length qts \<le> Q"
    and "worker_qts w opt ins ds insIdx dsIdx qtIdx qts = (ended, es)"
  shows "\<forall>e\<in>set es. effect_ok I D Q e"
  using assms(3,4)
proof (induction qts arbitrary: qtIdx ended es)
  case Nil
  then show ?case by simp
next
  case (Cons qt qts)
  from Cons.prems(1) have q: "qtIdx < Q" "Suc qtIdx + length qts \<le> Q" by auto
  obtain e2 es2 where rec: "worker_qts w opt ins ds insIdx dsIdx (Suc qtIdx) qts = (e2, es2)"
    by (cases "worker_qts w opt ins ds insIdx dsIdx (Suc qtIdx) qts")
  note ih = Cons.IH [OF q(2) rec]
  show ?case
  proof (cases "GenCases ds (N opt) qt")
    case (Inl err)
    with Cons.prems(2) assms(1) show ?thesis by auto
  next
    case (Inr qs)
    obtain e1 es1 where c: "worker_cases w opt ins insIdx dsIdx qtIdx qt 0 qs = (e1, es1)"
      by (cases "worker_cases w opt ins insIdx dsIdx qtIdx qt 0 qs")
    from worker_cases_effect_ok [OF assms(1,2) q(1) c] ih Cons.prems(2) Inr c rec show ?thesis
      by (cases e1) auto
  qed
qed

lemma worker_dss_effect_ok:
  assumes "insIdx < I" "length (QueryTypes opt) \<le> Q"
    and "\<forall>dsIdx\<in>set idxs. dsIdx < D"
    and "worker_dss w opt ins row insIdx idxs = (ended, es)"
  shows "\<forall>e\<in>set es. effect_ok I D Q e"
  using assms(3,4)
proof (induction idxs arbitrary: ended es)
  case Nil
  then show ?case by simp
next
  case (Cons dsIdx idxs)
  from Cons.prems(1) have d: "dsIdx < D" "\<forall>dsIdx\<in>set idxs. dsIdx < D" by auto
  obtain e2 es2 where rec: "worker_dss w opt ins row insIdx idxs = (e2, es2)"
    by (cases "worker_dss w opt ins row insIdx idxs")
  note ih = Cons.IH [OF d(2) rec]
  obtain e1 es1 where c: "worker_qts w opt ins (row ! dsIdx) insIdx dsIdx 0 (QueryTypes opt) = (e1, es1)"
    by (cases "worker_qts w opt ins (row ! dsIdx) insIdx dsIdx 0 (QueryTypes opt)")
  from assms(2) have "0 + length (QueryTypes opt) \<le> Q" by simp
  from worker_qts_effect_ok [OF assms(1) d(1) this c] ih Cons.prems(2) c rec show ?case
    by (cases e1) (auto split: if_splits)
qed

subsection \<open>The effects on the shared state\<close>

lemma dims_New: "dims I D Q (NewEstResultCollector I D Q)"
  by (simp add: dims_def NewEstResultCollector_def)

lemma AddEstResult_ok:
  assumes "dims I D Q c" "i < I" "d < D" "q < Q"
  shows "\<exists>c'. AddEstResult c i d q r = Inr c' \<and> dims I D Q c'"
proof -
  let ?c' = "c[i := (c ! i)[d := (c ! i ! d)[q := c ! i ! d ! q @ [r]]]]"
  from assms have "AddEstResult c i d q r = Inr ?c'"
    by (simp add: AddEstResult_def dims_def)
  moreover from assms have "dims I D Q ?c'"
    by (auto simp: dims_def nth_list_update)
  ultimately show ?thesis by blast
qed

lemma apply_effect_ok:
  assumes "state_ok I D Q g" "effect_ok I D Q e" "\<not> is_Panic e"
  shows "\<exists>g'. apply_effect e g = Inr g' \<and> state_ok I D Q g'"
proof (cases e)
  case (Append i d q r)
  with assms obtain c' where "AddEstResult (collector g) i d q r = Inr c'" "dims I D Q c'"
    using AddEstResult_ok [of I D Q "collector g" i d q r] by (auto simp: state_ok_def)
  with Append assms show ?thesis by (simp add: state_ok_def)
qed (use assms in \<open>auto simp: state_ok_def\<close>)

lemma apply_effect_keeps:
  assumes "state_ok I D Q g" "apply_effect e g = Inr g'"
  shows "state_ok I D Q g'"
proof (cases e)
  case (Append i d q r)
  with assms(2) have r: "i < length (collector g)" "d < length (collector g ! i)"
      "q < length (collector g ! i ! d)"
    and c: "collector g' = (collector g)[i := (collector g ! i)[d := (collector g ! i ! d)[q :=
        collector g ! i ! d ! q @ [r]]]]"
    and e: "insErrs g' = insErrs g"
    by (auto simp: AddEstResult_def split: if_splits)
  from assms(1) r have "dims I D Q ((collector g)[i := (collector g ! i)[d := (collector g ! i ! d)[q :=
        collector g ! i ! d ! q @ [r]]]])"
    by (auto simp: state_ok_def dims_def nth_list_update)
  with c e assms(1) show ?thesis by (simp add: state_ok_def)
qed (use assms in \<open>auto simp: state_ok_def split: if_splits\<close>)

text \<open>
  What an effect that is applied does to a cell of the collector, to the statements an
  instance has received and to an error slot.
\<close>

lemma AddEstResult_added:
  assumes "AddEstResult c insIdx dsIdx qtIdx r = Inr c'"
  shows "c' ! i ! d ! t =
     c ! i ! d ! t @ (if insIdx = i \<and> dsIdx = d \<and> qtIdx = t then [r] else [])"
proof -
  from assms have r: "insIdx < length c" "dsIdx < length (c ! insIdx)"
      "qtIdx < length (c ! insIdx ! dsIdx)"
    and c: "c' = c[insIdx := (c ! insIdx)[dsIdx := (c ! insIdx ! dsIdx)[qtIdx :=
        c ! insIdx ! dsIdx ! qtIdx @ [r]]]]"
    by (auto simp: AddEstResult_def split: if_splits)
  from r show ?thesis
    unfolding c by (auto simp: nth_list_update)
qed

lemma apply_effect_added:
  assumes "apply_effect e g = Inr g'"
  shows "collector g' ! i ! d ! t = collector g ! i ! d ! t @ added i d t e"
    and "received i g' = received i g @ sent_to i e"
proof -
  show "collector g' ! i ! d ! t = collector g ! i ! d ! t @ added i d t e"
  proof (cases e)
    case (Append insIdx dsIdx qtIdx r)
    with assms obtain c' where c: "AddEstResult (collector g) insIdx dsIdx qtIdx r = Inr c'"
      and g: "collector g' = c'"
      by (auto split: sum.splits)
    from AddEstResult_added [OF c, of i d t] g Append show ?thesis by simp
  qed (use assms in \<open>auto split: if_splits\<close>)
  show "received i g' = received i g @ sent_to i e"
    using assms by (cases e) (auto simp: received_def split: if_splits sum.splits)
qed

lemma apply_effect_slot:
  assumes "apply_effect e g = Inr g'" and "\<not> sets_err k e"
  shows "insErrs g' ! k = insErrs g ! k"
  using assms by (cases e) (auto split: if_splits sum.splits)

lemma added_other:
  "goroutine e \<noteq> i \<Longrightarrow> added i d t e = [] \<and> sent_to i e = [] \<and> \<not> sets_err i e"
  by (cases e) auto

text \<open>A goroutine that has panicked changes nothing any more.\<close>

lemma exec_dead:
  assumes "i \<in> set dead"
  shows "collector (final (exec grace es dead f g)) ! i ! d ! t = collector g ! i ! d ! t \<and>
         received i (final (exec grace es dead f g)) = received i g \<and>
         insErrs (final (exec grace es dead f g)) ! i = insErrs g ! i"
  using assms
proof (induction es arbitrary: dead f g)
  case Nil
  then show ?case by simp
next
  case (Cons e es)
  show ?case
  proof (cases "goroutine e \<in> set dead")
    case True
    with Cons.IH [OF Cons.prems] show ?thesis by simp
  next
    case live: False
    with Cons.prems have other: "goroutine e \<noteq> i" by auto
    show ?thesis
    proof (cases "over f")
      case (Some p)
      with live show ?thesis by simp
    next
      case None
      show ?thesis
      proof (cases "apply_effect e g")
        case (Inl p)
        from Cons.prems have "i \<in> set (goroutine e # dead)" by simp
        from Cons.IH [OF this] live None Inl show ?thesis by simp
      next
        case (Inr g')
        from apply_effect_added(1) [OF Inr, of i d t] apply_effect_added(2) [OF Inr, of i]
          apply_effect_slot [OF Inr, of i] added_other [OF other, of d t]
        have "collector g' ! i ! d ! t = collector g ! i ! d ! t" "received i g' = received i g"
          "insErrs g' ! i = insErrs g ! i"
          by auto
        with Cons.IH [OF Cons.prems, of "tick f" g'] live None Inr show ?thesis by simp
      qed
    qed
  qed
qed

text \<open>
  However the workers are scheduled and whenever the process ends, a cell holds what a
  prefix of the effects of its goroutine adds to it, and an instance has received what a
  prefix of the effects of its goroutine sends.
\<close>

lemma exec_final:
  "\<exists>es1. prefix es1 (filter (\<lambda>e. goroutine e = i) es) \<and>
     collector (final (exec grace es dead f g)) ! i ! d ! t =
       collector g ! i ! d ! t @ concat (map (added i d t) es1) \<and>
     received i (final (exec grace es dead f g)) = received i g @ concat (map (sent_to i) es1)"
proof (induction es arbitrary: dead f g)
  case Nil
  then show ?case by simp
next
  case (Cons e es)
  let ?own = "\<lambda>e. goroutine e = i"
  let ?r = "exec grace (e # es) dead f g"
  have untouched: ?case
    if "collector (final ?r) ! i ! d ! t = collector g ! i ! d ! t"
      and "received i (final ?r) = received i g"
  proof -
    from that have "prefix [] (filter ?own (e # es)) \<and>
     collector (final ?r) ! i ! d ! t = collector g ! i ! d ! t @ concat (map (added i d t) []) \<and>
     received i (final ?r) = received i g @ concat (map (sent_to i) [])"
      by simp
    then show ?thesis by blast
  qed
  show ?case
  proof (cases "goroutine e \<in> set dead")
    case True
    then have r: "?r = exec grace es dead f g" by simp
    show ?thesis
    proof (cases "goroutine e = i")
      case own: True
      with True have "i \<in> set dead" by simp
      from exec_dead [OF this, of grace es f g d t] r
      have "collector (final ?r) ! i ! d ! t = collector g ! i ! d ! t"
        "received i (final ?r) = received i g"
        by simp_all
      with untouched show ?thesis by blast
    next
      case False
      with Cons.IH [of dead f g] r show ?thesis by simp
    qed
  next
    case live: False
    show ?thesis
    proof (cases "over f")
      case (Some p)
      with live have "collector (final ?r) ! i ! d ! t = collector g ! i ! d ! t"
        "received i (final ?r) = received i g"
        by simp_all
      with untouched show ?thesis by blast
    next
      case None
      show ?thesis
      proof (cases "apply_effect e g")
        case (Inl p)
        with live None have r: "?r = exec grace es (goroutine e # dead) (hit p grace f) g" by simp
        show ?thesis
        proof (cases "goroutine e = i")
          case True
          then have "i \<in> set (goroutine e # dead)" by simp
          from exec_dead [OF this, of grace es "hit p grace f" g d t] r
          have "collector (final ?r) ! i ! d ! t = collector g ! i ! d ! t"
            "received i (final ?r) = received i g"
            by simp_all
          with untouched show ?thesis by blast
        next
          case False
          with Cons.IH [of "goroutine e # dead" "hit p grace f" g] r show ?thesis by simp
        qed
      next
        case (Inr g')
        with live None have r: "?r = exec grace es dead (tick f) g'" by simp
        from Cons.IH [of dead "tick f" g'] r obtain es1 where p: "prefix es1 (filter ?own es)"
          and c: "collector (final ?r) ! i ! d ! t =
                  collector g' ! i ! d ! t @ concat (map (added i d t) es1)"
          and s: "received i (final ?r) = received i g' @ concat (map (sent_to i) es1)"
          by auto
        note a = apply_effect_added(1) [OF Inr, of i d t] apply_effect_added(2) [OF Inr, of i]
        show ?thesis
        proof (cases "goroutine e = i")
          case True
          with p have "prefix (e # es1) (filter ?own (e # es))" by simp
          moreover from c a have "collector (final ?r) ! i ! d ! t =
              collector g ! i ! d ! t @ concat (map (added i d t) (e # es1))" by simp
          moreover from s a have "received i (final ?r) =
              received i g @ concat (map (sent_to i) (e # es1))" by simp
          ultimately show ?thesis by blast
        next
          case False
          with p have "prefix es1 (filter ?own (e # es))" by simp
          moreover from c a added_other [OF False, of d t]
          have "collector (final ?r) ! i ! d ! t =
              collector g ! i ! d ! t @ concat (map (added i d t) es1)" by simp
          moreover from s a added_other [OF False, of d t]
          have "received i (final ?r) = received i g @ concat (map (sent_to i) es1)" by simp
          ultimately show ?thesis by blast
        qed
      qed
    qed
  qed
qed

text \<open>
  When the workers have joined, a goroutine none of whose effects panics has made all
  its effects.
\<close>

lemma exec_joined:
  assumes "exec grace es dead f g = Joined g' f'"
    and "state_ok I D Q g" and "\<forall>e\<in>set es. effect_ok I D Q e"
    and "i \<notin> set dead" and "\<forall>e\<in>set es. goroutine e = i \<longrightarrow> \<not> is_Panic e"
  shows "collector g' ! i ! d ! t =
           collector g ! i ! d ! t @ concat (map (added i d t) (filter (\<lambda>e. goroutine e = i) es)) \<and>
         received i g' =
           received i g @ concat (map (sent_to i) (filter (\<lambda>e. goroutine e = i) es))"
  using assms
proof (induction es arbitrary: dead f g)
  case Nil
  then show ?case by simp
next
  case (Cons e es)
  from Cons.prems(3) have oks: "\<forall>e\<in>set es. effect_ok I D Q e" and ok: "effect_ok I D Q e"
    by simp_all
  from Cons.prems(5) have nps: "\<forall>e\<in>set es. goroutine e = i \<longrightarrow> \<not> is_Panic e"
    and np: "goroutine e = i \<longrightarrow> \<not> is_Panic e"
    by simp_all
  show ?case
  proof (cases "goroutine e \<in> set dead")
    case True
    with Cons.prems(4) have other: "goroutine e \<noteq> i" by auto
    from True Cons.prems(1) have "exec grace es dead f g = Joined g' f'" by simp
    from Cons.IH [OF this Cons.prems(2) oks Cons.prems(4) nps] other show ?thesis by simp
  next
    case live: False
    show ?thesis
    proof (cases "over f")
      case (Some p)
      with live Cons.prems(1) show ?thesis by simp
    next
      case None
      show ?thesis
      proof (cases "apply_effect e g")
        case (Inl p)
        have "is_Panic e"
        proof (rule ccontr)
          assume "\<not> is_Panic e"
          from apply_effect_ok [OF Cons.prems(2) ok this] Inl show False by simp
        qed
        with np have other: "goroutine e \<noteq> i" by auto
        with Cons.prems(4) have nd: "i \<notin> set (goroutine e # dead)" by simp
        from live None Inl Cons.prems(1)
        have "exec grace es (goroutine e # dead) (hit p grace f) g = Joined g' f'" by simp
        from Cons.IH [OF this Cons.prems(2) oks nd nps] other show ?thesis by simp
      next
        case (Inr g1)
        from live None Inr Cons.prems(1) have r: "exec grace es dead (tick f) g1 = Joined g' f'"
          by simp
        from apply_effect_keeps [OF Cons.prems(2) Inr] have "state_ok I D Q g1" .
        from Cons.IH [OF r this oks Cons.prems(4) nps]
        have c: "collector g' ! i ! d ! t =
           collector g1 ! i ! d ! t @ concat (map (added i d t) (filter (\<lambda>e. goroutine e = i) es))"
          and s: "received i g' =
           received i g1 @ concat (map (sent_to i) (filter (\<lambda>e. goroutine e = i) es))"
          by simp_all
        note a = apply_effect_added(1) [OF Inr, of i d t] apply_effect_added(2) [OF Inr, of i]
        show ?thesis
        proof (cases "goroutine e = i")
          case True
          with c s a show ?thesis by simp
        next
          case False
          with c s a added_other [OF False, of d t] show ?thesis by simp
        qed
      qed
    qed
  qed
qed

text \<open>
  When no effect panics and every index is in range, the workers join, no goroutine
  has panicked, and the state keeps its shape.
\<close>

lemma exec_no_panic_joins:
  assumes "state_ok I D Q g" and "\<forall>e\<in>set es. effect_ok I D Q e \<and> \<not> is_Panic e"
  shows "\<exists>g'. exec grace es [] Alive g = Joined g' Alive \<and> state_ok I D Q g'"
  using assms
proof (induction es arbitrary: g)
  case Nil
  then show ?case by simp
next
  case (Cons e es)
  from Cons.prems obtain g1 where g1: "apply_effect e g = Inr g1" "state_ok I D Q g1"
    using apply_effect_ok [of I D Q g e] by auto
  from Cons.prems have "\<forall>e\<in>set es. effect_ok I D Q e \<and> \<not> is_Panic e" by simp
  from Cons.IH [OF g1(2) this] g1(1) show ?case by simp
qed

text \<open>An error slot that no effect writes keeps its value until the join.\<close>

lemma exec_slot:
  assumes "exec grace es dead f g = Joined g' f'"
    and "\<forall>e\<in>set es. \<not> sets_err k e"
  shows "insErrs g' ! k = insErrs g ! k"
  using assms
proof (induction es arbitrary: dead f g)
  case Nil
  then show ?case by simp
next
  case (Cons e es)
  from Cons.prems(2) have rest: "\<forall>e\<in>set es. \<not> sets_err k e" and e: "\<not> sets_err k e"
    by simp_all
  show ?case
  proof (cases "goroutine e \<in> set dead")
    case True
    with Cons.prems(1) have "exec grace es dead f g = Joined g' f'" by simp
    from Cons.IH [OF this rest] show ?thesis .
  next
    case live: False
    show ?thesis
    proof (cases "over f")
      case (Some p)
      with live Cons.prems(1) show ?thesis by simp
    next
      case None
      show ?thesis
      proof (cases "apply_effect e g")
        case (Inl p)
        with live None Cons.prems(1)
        have "exec grace es (goroutine e # dead) (hit p grace f) g = Joined g' f'" by simp
        from Cons.IH [OF this rest] show ?thesis .
      next
        case (Inr g1)
        with live None Cons.prems(1) have "exec grace es dead (tick f) g1 = Joined g' f'" by simp
        from Cons.IH [OF this rest] apply_effect_slot [OF Inr e] show ?thesis by simp
      qed
    qed
  qed
qed

subsection \<open>The shared state under every schedule\<close>

lemma workers_effect_ok:
  "\<forall>e\<in>set (interleave sched (map (worker w opt instances datasets) [0..<length instances])).
      effect_ok (length instances) (length (Datasets opt)) (length (QueryTypes opt)) e"
proof -
  let ?I = "length instances" and ?D = "length (Datasets opt)" and ?Q = "length (QueryTypes opt)"
  have "\<forall>e\<in>set (worker w opt instances datasets k). effect_ok ?I ?D ?Q e" if k: "k < ?I" for k
  proof -
    obtain ended es where
      d: "worker_dss w opt (instances ! k) (datasets ! k) k [0..<?D] = (ended, es)"
      by (cases "worker_dss w opt (instances ! k) (datasets ! k) k [0..<?D]")
    have "\<forall>e\<in>set es. effect_ok ?I ?D ?Q e"
      using k _ _ d by (rule worker_dss_effect_ok) simp_all
    with d show ?thesis by (simp add: worker_def)
  qed
  then show ?thesis by (auto simp: set_interleave)
qed

lemma prefix_concat_map:
  assumes "prefix es1 es"
  shows "prefix (concat (map f es1)) (concat (map f es))"
  using assms by (auto simp: prefix_def)

text \<open>
  Whatever the schedule and whenever the process ends, the statements an instance has
  received and the contents of each of its cells are what a prefix of the effects of
  its own worker sends and adds.
\<close>

lemma run_final:
  assumes "i < length instances"
  shows "\<exists>es1. prefix es1 (worker w opt instances datasets i) \<and>
     received i (final (run_workers w opt instances datasets sched grace)) =
       concat (map (sent_to i) es1) \<and>
     (d < length (Datasets opt) \<and> t < length (QueryTypes opt) \<longrightarrow>
      collector (final (run_workers w opt instances datasets sched grace)) ! i ! d ! t =
        concat (map (added i d t) es1))"
proof -
  let ?I = "length instances" and ?D = "length (Datasets opt)" and ?Q = "length (QueryTypes opt)"
  let ?T = "interleave sched (map (worker w opt instances datasets) [0..<?I])"
  let ?g = "\<lparr>collector = NewEstResultCollector ?I ?D ?Q,
             insErrs = replicate ?I None, stdout = [], sent = []\<rparr> :: 'a gstate"
  have run: "run_workers w opt instances datasets sched grace = exec grace ?T [] Alive ?g"
    by (simp add: run_workers_def)
  from exec_final [of i ?T grace "[]" Alive ?g d t]
  obtain es1 where p: "prefix es1 (filter (\<lambda>e. goroutine e = i) ?T)"
    and c: "collector (final (exec grace ?T [] Alive ?g)) ! i ! d ! t =
       collector ?g ! i ! d ! t @ concat (map (added i d t) es1)"
    and s: "received i (final (exec grace ?T [] Alive ?g)) =
       received i ?g @ concat (map (sent_to i) es1)"
    by blast
  from p assms have "prefix es1 (worker w opt instances datasets i)"
    by (simp add: workers_own_effects)
  moreover from s have "received i (final (run_workers w opt instances datasets sched grace)) =
       concat (map (sent_to i) es1)"
    by (simp add: run received_def)
  moreover from c assms
  have "d < ?D \<and> t < ?Q \<longrightarrow>
      collector (final (run_workers w opt instances datasets sched grace)) ! i ! d ! t =
        concat (map (added i d t) es1)"
    by (simp add: run NewEstResultCollector_def)
  ultimately show ?thesis by blast
qed

lemma run_cell_prefix:
  assumes "i < length instances" "d < length (Datasets opt)" "t < length (QueryTypes opt)"
  shows "prefix (collector (final (run_workers w opt instances datasets sched grace)) ! i ! d ! t)
           (concat (map (added i d t) (worker w opt instances datasets i)))"
proof -
  from run_final [OF assms(1), of w opt datasets sched grace d t] assms(2,3)
  obtain es1 where "prefix es1 (worker w opt instances datasets i)"
    "collector (final (run_workers w opt instances datasets sched grace)) ! i ! d ! t =
        concat (map (added i d t) es1)"
    by auto
  then show ?thesis by (simp add: prefix_concat_map)
qed

text \<open>
  When the workers have joined, a worker that has not panicked has made all its
  effects.
\<close>

lemma run_joined:
  assumes "run_workers w opt instances datasets sched grace = Joined g f"
    and "i < length instances"
    and "\<forall>e\<in>set (worker w opt instances datasets i). \<not> is_Panic e"
  shows "received i g = concat (map (sent_to i) (worker w opt instances datasets i)) \<and>
     (d < length (Datasets opt) \<and> t < length (QueryTypes opt) \<longrightarrow>
      collector g ! i ! d ! t = concat (map (added i d t) (worker w opt instances datasets i)))"
proof -
  let ?I = "length instances" and ?D = "length (Datasets opt)" and ?Q = "length (QueryTypes opt)"
  let ?T = "interleave sched (map (worker w opt instances datasets) [0..<?I])"
  let ?g = "\<lparr>collector = NewEstResultCollector ?I ?D ?Q,
             insErrs = replicate ?I None, stdout = [], sent = []\<rparr> :: 'a gstate"
  from assms(1) have run: "exec grace ?T [] Alive ?g = Joined g f"
    by (simp add: run_workers_def)
  have g0: "state_ok ?I ?D ?Q ?g"
    by (simp add: state_ok_def dims_New)
  have own: "filter (\<lambda>e. goroutine e = i) ?T = worker w opt instances datasets i"
    using assms(2) by (rule workers_own_effects)
  have np: "\<forall>e\<in>set ?T. goroutine e = i \<longrightarrow> \<not> is_Panic e"
  proof (intro ballI impI)
    fix e assume "e \<in> set ?T" "goroutine e = i"
    then have "e \<in> set (filter (\<lambda>e. goroutine e = i) ?T)" by simp
    with own assms(3) show "\<not> is_Panic e" by simp
  qed
  have nd: "i \<notin> set []" by simp
  from exec_joined [OF run g0 workers_effect_ok nd np, of d t] own assms(2)
  show ?thesis
    by (simp add: received_def NewEstResultCollector_def)
qed

text \<open>With a single instance there is one worker, and the schedule does not matter.\<close>

lemma run_workers_one:
  "run_workers w opt [ins] datasets sched grace =
     exec grace (worker w opt [ins] datasets 0) [] Alive
       \<lparr>collector = NewEstResultCollector 1 (length (Datasets opt)) (length (QueryTypes opt)),
        insErrs = [None], stdout = [], sent = []\<rparr>"
  by (simp add: run_workers_def interleave_single)

subsection \<open>The end-to-end scenario\<close>

lemma e2e_phases:
  "ReadFile (scenario opt) ''conf.toml'' = Inr ''conf''"
  "ConnectToInstances (scenario opt) (Instances opt) = (instances_of opt, None)"
  "GenPErrorBarChartsReport (scenario opt) opt c = None"
  by (simp_all add: scenario_def instances_of_def)

lemma e2e_worker:
  "worker (scenario opt_e2e) opt_e2e (instances_of opt_e2e) (datasets_of opt_e2e) 0 =
     [Print 0 (''mock'', ''tidb'', ''single-col-point-query'', 0, 5),
      Send 0 ''EXPLAIN ANALYZE SELECT * FROM mock WHERE a = 1 -- single-col-point-query'',
      Append 0 0 0 (1, 1),
      Panic 0 DivideByZero]"
  by code_simp

lemma e2e_run:
  "run_workers (scenario opt_e2e) opt_e2e (instances_of opt_e2e) (datasets_of opt_e2e) sched grace =
     Joined \<lparr>collector = [[[[(1, 1)]]]], insErrs = [None],
             stdout = [(''mock'', ''tidb'', ''single-col-point-query'', 0, 5)],
             sent = [(0, ''EXPLAIN ANALYZE SELECT * FROM mock WHERE a = 1 -- single-col-point-query'')]\<rparr>
       (Dying DivideByZero grace)"
proof -
  have i: "instances_of opt_e2e = [instance_of \<lparr>InsLabel = ''tidb''\<rparr>]"
    by (simp add: instances_of_def opt_e2e_def)
  have n: "length (Datasets opt_e2e) = 1" "length (QueryTypes opt_e2e) = 1"
    by (simp_all add: opt_e2e_def)
  show ?thesis
    unfolding i run_workers_one e2e_worker [unfolded i] n
    by (simp add: NewEstResultCollector_def AddEstResult_def)
qed

lemma e2e_build:
  "DecodeOption (scenario opt_e2e) ''conf'' = Inr opt_e2e"
  "build_datasets (scenario opt_e2e) opt_e2e (instances_of opt_e2e) = Ok (datasets_of opt_e2e)"
proof -
  show "DecodeOption (scenario opt_e2e) ''conf'' = Inr opt_e2e" by code_simp
  show "build_datasets (scenario opt_e2e) opt_e2e (instances_of opt_e2e) = Ok (datasets_of opt_e2e)"
    by (simp add: build_datasets_def opt_e2e_def scenario_def datasetMap_def instances_of_def
        datasets_of_def)
qed

text \<open>
  The outcome of the end-to-end scenario, for every schedule and every number of steps
  the process makes after the panic of the worker: with fewer than three steps the
  process is ended by the panic before the function returns, otherwise the function
  returns without an error, the instance closed.
\<close>

lemma e2e_outcome:
  "RunCETestWithConfig (scenario opt_e2e) sched grace ''conf.toml'' =
     (if 3 \<le> grace then Return None [0] else Killed DivideByZero [0..<min 1 (grace - 1)])"
proof -
  have l: "length (instances_of opt_e2e) = 1"
    by (simp add: instances_of_def opt_e2e_def)
  show ?thesis
    by (simp add: RunCETestWithConfig_def e2e_phases e2e_build e2e_run finish_def l)
qed

text \<open>
  C1.  The end-to-end scenario of the specification: one instance, the dataset mock, the
  query type single-col-point-query, \<open>N = 5\<close>, every query succeeding with actual =
  estimated = 1.  The worker prints the progress line of case 0, sends the statement of
  case 0, adds its result to the cell \<open>(0,0,0)\<close>, and at case 1 panics in the progress
  condition with a division by zero.  Under every schedule, and however long the
  process lives after the panic, the workers end with that one entry in the cell
  \<open>(0,0,0)\<close>, not five.
\<close>

theorem C1_end_to_end_one_entry:
  "worker (scenario opt_e2e) opt_e2e (instances_of opt_e2e) (datasets_of opt_e2e) 0 =
     [Print 0 (''mock'', ''tidb'', ''single-col-point-query'', 0, 5),
      Send 0 ''EXPLAIN ANALYZE SELECT * FROM mock WHERE a = 1 -- single-col-point-query'',
      Append 0 0 0 (1, 1),
      Panic 0 DivideByZero] \<and>
   collector (final (run_workers (scenario opt_e2e) opt_e2e (instances_of opt_e2e)
       (datasets_of opt_e2e) sched grace)) ! 0 ! 0 ! 0 = [(1, 1)]"
  using e2e_worker by (simp add: e2e_run)

subsection \<open>Two instances, one of them failing\<close>

lemma one_down_5_worker_0:
  "worker (scenario cfg_one_down_5) cfg_one_down_5 (instances_of cfg_one_down_5)
       (datasets_of cfg_one_down_5) 0 =
     [Print 0 (''mock'', ''down'', ''single-col-point-query'', 0, 5),
      Send 0 ''EXPLAIN ANALYZE SELECT * FROM mock WHERE a = 1 -- single-col-point-query'',
      SetErr 0 (Trace (Errorf ''connection refused''))]"
  by code_simp

lemma one_down_5_worker_1:
  "worker (scenario cfg_one_down_5) cfg_one_down_5 (instances_of cfg_one_down_5)
       (datasets_of cfg_one_down_5) 1 =
     [Print 1 (''mock'', ''tidb'', ''single-col-point-query'', 0, 5),
      Send 1 ''EXPLAIN ANALYZE SELECT * FROM mock WHERE a = 1 -- single-col-point-query'',
      Append 1 0 0 (1, 1),
      Panic 1 DivideByZero]"
  by code_simp

text \<open>
  C5.  Two instances, the dataset mock, the query type single-col-point-query,
  \<open>N = 5\<close>; every statement fails on instance 0 (\<open>k = 0\<close>), and every generation and
  statement succeeds on instance 1.  Worker 0 stores its error and ends, and signals
  no one.  Worker 1 adds the result of case 0 and at case 1 panics in the progress
  condition with a division by zero.  Under every schedule, and however long the
  process lives after the panic, the cell \<open>(1,0,0)\<close> of the instance without failures
  ends with at most that one entry, not with \<open>D \<times> Q \<times> N = 5\<close>.
\<close>

theorem C5_other_instance_one_entry:
  "worker (scenario cfg_one_down_5) cfg_one_down_5 (instances_of cfg_one_down_5)
       (datasets_of cfg_one_down_5) 0 =
     [Print 0 (''mock'', ''down'', ''single-col-point-query'', 0, 5),
      Send 0 ''EXPLAIN ANALYZE SELECT * FROM mock WHERE a = 1 -- single-col-point-query'',
      SetErr 0 (Trace (Errorf ''connection refused''))] \<and>
   worker (scenario cfg_one_down_5) cfg_one_down_5 (instances_of cfg_one_down_5)
       (datasets_of cfg_one_down_5) 1 =
     [Print 1 (''mock'', ''tidb'', ''single-col-point-query'', 0, 5),
      Send 1 ''EXPLAIN ANALYZE SELECT * FROM mock WHERE a = 1 -- single-col-point-query'',
      Append 1 0 0 (1, 1),
      Panic 1 DivideByZero] \<and>
   prefix
     (collector (final (run_workers (scenario cfg_one_down_5) cfg_one_down_5
        (instances_of cfg_one_down_5) (datasets_of cfg_one_down_5) sched grace)) ! 1 ! 0 ! 0)
     [(1, 1)]"
proof -
  have n: "1 < length (instances_of cfg_one_down_5)" "0 < length (Datasets cfg_one_down_5)"
    "0 < length (QueryTypes cfg_one_down_5)"
    by (simp_all add: instances_of_def cfg_one_down_5_def config_def)
  have "prefix
     (collector (final (run_workers (scenario cfg_one_down_5) cfg_one_down_5
        (instances_of cfg_one_down_5) (datasets_of cfg_one_down_5) sched grace)) ! 1 ! 0 ! 0)
     [(1, 1)]"
    using run_cell_prefix [OF n, of "scenario cfg_one_down_5" "datasets_of cfg_one_down_5" sched grace]
    unfolding one_down_5_worker_1 by simp
  with one_down_5_worker_0 one_down_5_worker_1 show ?thesis by (intro conjI)
qed

text \<open>
  On this input, with the schedule in which worker 1 panics last: when the process
  lives ten more steps, the function returns the error of instance 0 with both
  instances closed; when it lives three more steps, both instances are closed and the
  process ends before the return; when it ends at once, no instance is closed.
\<close>

lemma one_down_5_outcomes:
  "RunCETestWithConfig (scenario cfg_one_down_5) [1, 0, 0, 1] 10 ''conf.toml'' =
     Return (Some (Trace (Errorf ''connection refused''))) [0, 1] \<and>
   RunCETestWithConfig (scenario cfg_one_down_5) [1, 0, 0, 1] 3 ''conf.toml'' =
     Killed DivideByZero [0, 1] \<and>
   RunCETestWithConfig (scenario cfg_one_down_5) [1, 0, 0, 1] 0 ''conf.toml'' =
     Killed DivideByZero []"
  by code_simp

subsection \<open>The grid of two instances, two datasets and two query types\<close>

lemma grid_worker_0:
  "worker (scenario cfg_grid) cfg_grid (instances_of cfg_grid) (datasets_of cfg_grid) 0 =
     [Print 0 (''mock'', ''tidb'', ''single-col-point-query'', 0, 10),
      Send 0 ''EXPLAIN ANALYZE SELECT * FROM mock WHERE a = 1 -- single-col-point-query'',
      Append 0 0 0 (1, 1),
      Panic 0 DivideByZero]"
  by code_simp

lemma grid_worker_1:
  "worker (scenario cfg_grid) cfg_grid (instances_of cfg_grid) (datasets_of cfg_grid) 1 =
     [Print 1 (''mock'', ''tikv'', ''single-col-point-query'', 0, 10),
      Send 1 ''EXPLAIN ANALYZE SELECT * FROM mock WHERE a = 1 -- single-col-point-query'',
      Append 1 0 0 (1, 1),
      Panic 1 DivideByZero]"
  by code_simp

lemma grid_cell:
  assumes "i < 2" "d < 2" "t < 2"
  shows "prefix
     (collector (final (run_workers (scenario cfg_grid) cfg_grid (instances_of cfg_grid)
        (datasets_of cfg_grid) sched grace)) ! i ! d ! t)
     (if d = 0 \<and> t = 0 then [(1, 1)] else [])"
proof -
  from assms have n: "i < length (instances_of cfg_grid)" "d < length (Datasets cfg_grid)"
    "t < length (QueryTypes cfg_grid)"
    by (simp_all add: instances_of_def cfg_grid_def config_def)
  note p = run_cell_prefix [OF n, of "scenario cfg_grid" "datasets_of cfg_grid" sched grace]
  from assms(1) have "i = 0 \<or> i = 1" by auto
  then show ?thesis
  proof
    assume "i = 0"
    with p show ?thesis unfolding \<open>i = 0\<close> grid_worker_0 by auto
  next
    assume "i = 1"
    with p show ?thesis unfolding \<open>i = 1\<close> grid_worker_1 by auto
  qed
qed

text \<open>
  C7.  Two instances, two datasets, two query types, \<open>N = 10\<close>, no failure of a
  generation or of a statement.  Each worker adds the result of case 0 of the first
  dataset and query type and at case 1 panics in the progress condition with a division
  by zero.  Under every schedule, and however long the process lives after the panics,
  the cells \<open>(i,0,0)\<close> end with at most one observation and every other cell ends
  empty: no cell holds \<open>N = 10\<close> observations.
\<close>

theorem C7_grid_cells:
  "worker (scenario cfg_grid) cfg_grid (instances_of cfg_grid) (datasets_of cfg_grid) 0 =
     [Print 0 (''mock'', ''tidb'', ''single-col-point-query'', 0, 10),
      Send 0 ''EXPLAIN ANALYZE SELECT * FROM mock WHERE a = 1 -- single-col-point-query'',
      Append 0 0 0 (1, 1),
      Panic 0 DivideByZero] \<and>
   worker (scenario cfg_grid) cfg_grid (instances_of cfg_grid) (datasets_of cfg_grid) 1 =
     [Print 1 (''mock'', ''tikv'', ''single-col-point-query'', 0, 10),
      Send 1 ''EXPLAIN ANALYZE SELECT * FROM mock WHERE a = 1 -- single-col-point-query'',
      Append 1 0 0 (1, 1),
      Panic 1 DivideByZero] \<and>
   (let c = collector (final (run_workers (scenario cfg_grid) cfg_grid (instances_of cfg_grid)
              (datasets_of cfg_grid) sched grace))
    in prefix (c ! 0 ! 0 ! 0) [(1, 1)] \<and> c ! 0 ! 0 ! 1 = [] \<and>
       c ! 0 ! 1 ! 0 = [] \<and> c ! 0 ! 1 ! 1 = [] \<and>
       prefix (c ! 1 ! 0 ! 0) [(1, 1)] \<and> c ! 1 ! 0 ! 1 = [] \<and>
       c ! 1 ! 1 ! 0 = [] \<and> c ! 1 ! 1 ! 1 = [])"
proof -
  note g = grid_cell [of _ _ _ sched grace]
  have "prefix (collector (final (run_workers (scenario cfg_grid) cfg_grid (instances_of cfg_grid)
              (datasets_of cfg_grid) sched grace)) ! 0 ! 0 ! 0) [(1, 1)]"
    using g [of 0 0 0] by simp
  moreover have "prefix (collector (final (run_workers (scenario cfg_grid) cfg_grid
       (instances_of cfg_grid) (datasets_of cfg_grid) sched grace)) ! 1 ! 0 ! 0) [(1, 1)]"
    using g [of 1 0 0] by simp
  moreover have "collector (final (run_workers (scenario cfg_grid) cfg_grid
       (instances_of cfg_grid) (datasets_of cfg_grid) sched grace)) ! 0 ! 0 ! 1 = []"
    using g [of 0 0 1] by simp
  moreover have "collector (final (run_workers (scenario cfg_grid) cfg_grid
       (instances_of cfg_grid) (datasets_of cfg_grid) sched grace)) ! 0 ! 1 ! 0 = []"
    using g [of 0 1 0] by simp
  moreover have "collector (final (run_workers (scenario cfg_grid) cfg_grid
       (instances_of cfg_grid) (datasets_of cfg_grid) sched grace)) ! 0 ! 1 ! 1 = []"
    using g [of 0 1 1] by simp
  moreover have "collector (final (run_workers (scenario cfg_grid) cfg_grid
       (instances_of cfg_grid) (datasets_of cfg_grid) sched grace)) ! 1 ! 0 ! 1 = []"
    using g [of 1 0 1] by simp
  moreover have "collector (final (run_workers (scenario cfg_grid) cfg_grid
       (instances_of cfg_grid) (datasets_of cfg_grid) sched grace)) ! 1 ! 1 ! 0 = []"
    using g [of 1 1 0] by simp
  moreover have "collector (final (run_workers (scenario cfg_grid) cfg_grid
       (instances_of cfg_grid) (datasets_of cfg_grid) sched grace)) ! 1 ! 1 ! 1 = []"
    using g [of 1 1 1] by simp
  ultimately show ?thesis
    using grid_worker_0 grid_worker_1 by (simp only: Let_def)
qed

subsection \<open>Closing the instances\<close>

text \<open>
  When the connection fails, the function returns before the deferred close is
  registered (lines 104 to 107): whatever \<^verbatim>\<open>ConnectToInstances\<close> has returned beside
  the error is not closed.
\<close>

lemma connect_failure_closes_nothing:
  assumes "ReadFile w confPath = Inr content"
    and "DecodeOption w content = Inr opt"
    and "ConnectToInstances w (Instances opt) = (instances, Some err)"
  shows "RunCETestWithConfig w sched grace confPath = Return (Some (Trace err)) []"
  using assms by (simp add: RunCETestWithConfig_def)

text \<open>
  After a connection that succeeds, a return of the function and a panic of its own
  goroutine run the deferred loop, which closes every instance once, in the order of
  the indices; a process ended by the panic of a worker has closed a prefix of them.
\<close>

lemma closes_after_connect:
  assumes "ReadFile w confPath = Inr content"
    and "DecodeOption w content = Inr opt"
    and "ConnectToInstances w (Instances opt) = (instances, None)"
  shows "case RunCETestWithConfig w sched grace confPath of
           Return e closed \<Rightarrow> closed = [0..<length instances]
         | MainPanic p closed \<Rightarrow> closed = [0..<length instances]
         | Killed p closed \<Rightarrow> prefix closed [0..<length instances]"
proof -
  have p: "prefix [0..<k] [0..<n]" if "k \<le> n" for k n :: nat
  proof -
    from that have "[0..<n] = [0..<k] @ [k..<n]"
      by (metis le_add_diff_inverse upt_add_eq_append zero_le)
    then show ?thesis by (metis prefixI)
  qed
  from assms show ?thesis
    by (auto simp: RunCETestWithConfig_def finish_def Let_def min_def intro: p
        split: res.splits workers.splits fate.splits)
qed

text \<open>
  C8.  In the end-to-end scenario (one instance, \<open>N = 5\<close>) the instance is connected,
  and the deferred close is registered.  The worker panics at case 1, and when the
  process ends at once (no further step after the panic), under every schedule the run
  ends with no instance closed: this exit skips the cleanup.
\<close>

theorem C8_killed_before_close:
  "ConnectToInstances (scenario opt_e2e) (Instances opt_e2e) = (instances_of opt_e2e, None) \<and>
   length (instances_of opt_e2e) = 1 \<and>
   RunCETestWithConfig (scenario opt_e2e) sched 0 ''conf.toml'' = Killed DivideByZero []"
proof -
  have l: "length (instances_of opt_e2e) = 1"
    by (simp add: instances_of_def opt_e2e_def)
  have "RunCETestWithConfig (scenario opt_e2e) sched 0 ''conf.toml'' = Killed DivideByZero []"
    by (simp add: RunCETestWithConfig_def e2e_phases e2e_build e2e_run finish_def l)
  with l e2e_phases(2) [of opt_e2e] show ?thesis by (intro conjI)
qed

subsection \<open>Runs in which no worker panics\<close>

lemma count_cases:
  assumes "\<forall>q\<in>set qs. \<exists>r. snd (runOneEstCase w ins q) = Inr r"
  shows "length (filter (appends_to i d t)
           (concat (map (case_effects w ins i) (cases_of d' t' j qs)))) =
         (if d' = d \<and> t' = t then length qs else 0)"
  using assms
proof (induction qs arbitrary: j)
  case Nil
  then show ?case by (simp add: cases_of_simps)
next
  case (Cons q qs)
  from Cons.prems obtain r where "snd (runOneEstCase w ins q) = Inr r" by auto
  with Cons show ?case by (auto simp: cases_of_simps)
qed

lemma count_qts:
  assumes "\<forall>qt\<in>set qts. \<exists>qs. GenCases ds (N opt) qt = Inr qs \<and> length qs = nat (N opt) \<and>
           (\<forall>q\<in>set qs. \<exists>r. snd (runOneEstCase w ins q) = Inr r)"
  shows "length (filter (appends_to i d t)
           (concat (map (case_effects w ins i) (qts_order opt ds d' qtIdx qts)))) =
         (if d' = d \<and> qtIdx \<le> t \<and> t < qtIdx + length qts then nat (N opt) else 0)"
  using assms
proof (induction qts arbitrary: qtIdx)
  case Nil
  then show ?case by (simp add: qts_order_simps)
next
  case (Cons qt qts)
  from Cons.prems obtain qs where qs: "GenCases ds (N opt) qt = Inr qs" "length qs = nat (N opt)"
    "\<forall>q\<in>set qs. \<exists>r. snd (runOneEstCase w ins q) = Inr r" by auto
  from Cons.prems have "\<forall>qt\<in>set qts. \<exists>qs. GenCases ds (N opt) qt = Inr qs \<and> length qs = nat (N opt) \<and>
           (\<forall>q\<in>set qs. \<exists>r. snd (runOneEstCase w ins q) = Inr r)" by simp
  from Cons.IH [OF this, of "Suc qtIdx"] qs count_cases [OF qs(3), of i d t d' qtIdx 0]
  show ?case by (auto simp: qts_order_simps)
qed

lemma count_dss:
  assumes "no_failures w opt ins row" and "\<forall>x\<in>set idxs. x < length row" and "distinct idxs"
    and "t < length (QueryTypes opt)"
  shows "length (filter (appends_to i d t)
           (concat (map (case_effects w ins i) (dss_order opt row idxs)))) =
         (if d \<in> set idxs then nat (N opt) else 0)"
  using assms(2,3)
proof (induction idxs)
  case Nil
  then show ?case by (simp add: dss_order_simps)
next
  case (Cons x idxs)
  from Cons.prems have "row ! x \<in> set row" by simp
  with assms(1) have g: "\<forall>qt\<in>set (QueryTypes opt). \<exists>qs. GenCases (row ! x) (N opt) qt = Inr qs \<and>
      length qs = nat (N opt) \<and> (\<forall>q\<in>set qs. \<exists>r. snd (runOneEstCase w ins q) = Inr r)"
    unfolding no_failures_def by blast
  from Cons.prems have "\<forall>x\<in>set idxs. x < length row" "distinct idxs" "x \<notin> set idxs" by auto
  with Cons.IH count_qts [OF g, of i d t x 0] assms(4) show ?case
    by (auto simp: dss_order_simps)
qed

lemma appends_touch: "appends_to i d t e \<Longrightarrow> case_effect_of i e"
  by (cases e) auto

lemma sets_err_ends: "sets_err k e \<Longrightarrow> ends_worker e \<and> goroutine e = k"
  by (cases e) auto

lemma panic_ends: "is_Panic e \<Longrightarrow> ends_worker e"
  by (cases e) auto

lemma filter_filter_appends:
  "filter (appends_to i d t) (filter (case_effect_of i) es) = filter (appends_to i d t) es"
  by (induction es) (use appends_touch in auto)

lemma length_added:
  "length (concat (map (added i d t) es)) = length (filter (appends_to i d t) es)"
proof (induction es)
  case Nil
  show ?case by simp
next
  case (Cons e es)
  then show ?case by (cases e) auto
qed

text \<open>
  With a non-zero divisor, one label per instance and the cardinality contract of
  \<^verbatim>\<open>GenCases\<close>, no worker panics; a worker whose instance has no failures does not
  end early.
\<close>

lemma worker_safe:
  assumes "k < length instances" and "length (datasets ! k) = length (Datasets opt)"
    and "length instances \<le> length (Instances opt)"
    and "progress_safe (N opt)"
    and "\<forall>ds\<in>set (datasets ! k). gen_contract opt ds"
  shows "\<forall>e\<in>set (worker w opt instances datasets k). \<not> is_Panic e"
proof -
  let ?D = "length (Datasets opt)"
  obtain ended es where
    d: "worker_dss w opt (instances ! k) (datasets ! k) k [0..<?D] = (ended, es)"
    by (cases "worker_dss w opt (instances ! k) (datasets ! k) k [0..<?D]")
  have idx: "\<forall>dsIdx\<in>set [0..<?D]. dsIdx < length (datasets ! k) \<and> dsIdx < ?D"
    using assms(2) by simp
  from assms(1,3) have kl: "k < length (Instances opt)" by simp
  have "\<forall>e\<in>set es. \<not> is_Panic e"
    using assms(4) kl idx assms(5) d by (rule worker_dss_no_panic)
  with d show ?thesis by (simp add: worker_def)
qed

lemma worker_completes:
  assumes "i < length instances" and "length (datasets ! i) = length (Datasets opt)"
    and "length instances \<le> length (Instances opt)"
    and "progress_safe (N opt)"
    and "no_failures w opt (instances ! i) (datasets ! i)"
  shows "\<forall>e\<in>set (worker w opt instances datasets i). \<not> ends_worker e"
proof -
  let ?D = "length (Datasets opt)"
  obtain ended es where
    d: "worker_dss w opt (instances ! i) (datasets ! i) i [0..<?D] = (ended, es)"
    by (cases "worker_dss w opt (instances ! i) (datasets ! i) i [0..<?D]")
  have idx: "\<forall>dsIdx\<in>set [0..<?D]. dsIdx < length (datasets ! i) \<and> dsIdx < ?D"
    using assms(2) by simp
  from assms(1,3) have il: "i < length (Instances opt)" by simp
  have "\<not> ended \<and> (\<forall>e\<in>set es. \<not> ends_worker e)"
    using assms(4) il idx assms(5) d by (rule worker_dss_completes)
  with d show ?thesis by (simp add: worker_def)
qed

lemma workers_effects_safe:
  assumes shape: "length datasets = length instances"
      "\<forall>row\<in>set datasets. length row = length (Datasets opt)"
    and labels: "length instances \<le> length (Instances opt)"
    and safe: "progress_safe (N opt)"
    and contract: "\<forall>row\<in>set datasets. \<forall>ds\<in>set row. gen_contract opt ds"
  shows "\<forall>e\<in>set (interleave sched (map (worker w opt instances datasets) [0..<length instances])).
           effect_ok (length instances) (length (Datasets opt)) (length (QueryTypes opt)) e \<and>
           \<not> is_Panic e"
proof -
  let ?I = "length instances"
  have row: "length (datasets ! k) = length (Datasets opt)"
      "\<forall>ds\<in>set (datasets ! k). gen_contract opt ds"
    if "k < ?I" for k
    using that shape contract by (auto simp: all_set_conv_all_nth)
  have "\<forall>e\<in>set (worker w opt instances datasets k). \<not> is_Panic e" if k: "k < ?I" for k
    using k row(1) [OF k] labels safe row(2) [OF k] by (rule worker_safe)
  then have "\<forall>e\<in>set (interleave sched (map (worker w opt instances datasets) [0..<?I])).
      \<not> is_Panic e"
    by (auto simp: set_interleave)
  with workers_effect_ok [of sched w opt instances datasets] show ?thesis by blast
qed

text \<open>
  Then, under every schedule, the workers join with no goroutine panicked, whether or
  not some of them fail.
\<close>

lemma workers_join_when_safe:
  assumes "length datasets = length instances"
    and "\<forall>row\<in>set datasets. length row = length (Datasets opt)"
    and "length instances \<le> length (Instances opt)"
    and "progress_safe (N opt)"
    and "\<forall>row\<in>set datasets. \<forall>ds\<in>set row. gen_contract opt ds"
  shows "\<exists>g. run_workers w opt instances datasets sched grace = Joined g Alive \<and>
             length (insErrs g) = length instances"
proof -
  let ?I = "length instances" and ?D = "length (Datasets opt)" and ?Q = "length (QueryTypes opt)"
  let ?g = "\<lparr>collector = NewEstResultCollector ?I ?D ?Q,
             insErrs = replicate ?I None, stdout = [], sent = []\<rparr> :: 'a gstate"
  have "state_ok ?I ?D ?Q ?g"
    by (simp add: state_ok_def dims_New)
  from exec_no_panic_joins [OF this workers_effects_safe [OF assms], of grace sched w]
  show ?thesis by (auto simp: run_workers_def state_ok_def)
qed

text \<open>
  Failure isolation: with a non-zero divisor, under every schedule the workers join, and
  an instance without failures has no recorded error and \<open>N\<close> observations in each of
  its cells, also when other instances fail.
\<close>

lemma instance_without_failures_full:
  assumes shape: "length datasets = length instances"
      "\<forall>row\<in>set datasets. length row = length (Datasets opt)"
    and labels: "length instances \<le> length (Instances opt)"
    and safe: "progress_safe (N opt)"
    and contract: "\<forall>row\<in>set datasets. \<forall>ds\<in>set row. gen_contract opt ds"
    and i: "i < length instances"
    and ok: "no_failures w opt (instances ! i) (datasets ! i)"
  shows "\<exists>g. run_workers w opt instances datasets sched grace = Joined g Alive \<and>
             length (insErrs g) = length instances \<and>
             insErrs g ! i = None \<and>
             (\<forall>d<length (Datasets opt). \<forall>t<length (QueryTypes opt).
                length (collector g ! i ! d ! t) = nat (N opt))"
proof -
  let ?I = "length instances" and ?D = "length (Datasets opt)" and ?Q = "length (QueryTypes opt)"
  let ?T = "interleave sched (map (worker w opt instances datasets) [0..<?I])"
  let ?W = "worker w opt instances datasets i"
  let ?g = "\<lparr>collector = NewEstResultCollector ?I ?D ?Q,
             insErrs = replicate ?I None, stdout = [], sent = []\<rparr> :: 'a gstate"
  from i shape have row: "length (datasets ! i) = ?D"
    by (auto simp: all_set_conv_all_nth)
  have comp: "\<forall>e\<in>set ?W. \<not> ends_worker e"
    using i row labels safe ok by (rule worker_completes)
  then have np: "\<forall>e\<in>set ?W. \<not> is_Panic e"
    using panic_ends by blast
  obtain g where j: "run_workers w opt instances datasets sched grace = Joined g Alive"
    and l: "length (insErrs g) = ?I"
    using workers_join_when_safe [OF shape labels safe contract, of w sched grace] by blast
  have cells: "length (collector g ! i ! d ! t) = nat (N opt)" if dt: "d < ?D" "t < ?Q" for d t
  proof -
    from run_joined [OF j i np, of d t] dt
    have "collector g ! i ! d ! t = concat (map (added i d t) ?W)" by simp
    then have "length (collector g ! i ! d ! t) = length (filter (appends_to i d t) ?W)"
      by (simp add: length_added)
    also have "\<dots> = length (filter (appends_to i d t) (filter (case_effect_of i) ?W))"
      by (simp only: filter_filter_appends)
    also have "\<dots> = length (filter (appends_to i d t)
          (concat (map (case_effects w (instances ! i) i) (dss_order opt (datasets ! i) [0..<?D]))))"
      using worker_order_full [OF comp] by (simp add: case_order_def)
    also have "\<dots> = (if d \<in> set [0..<?D] then nat (N opt) else 0)"
      using ok _ _ dt(2) by (rule count_dss) (use row in simp_all)
    finally show ?thesis using dt by simp
  qed
  have noerr: "\<forall>e\<in>set ?T. \<not> sets_err i e"
  proof
    fix e assume "e \<in> set ?T"
    then obtain k where k: "k < ?I" "e \<in> set (worker w opt instances datasets k)"
      by (auto simp: set_interleave)
    show "\<not> sets_err i e"
    proof
      assume s: "sets_err i e"
      with sets_err_ends [OF s] worker_own [of w opt instances datasets k] k
      have "k = i" by auto
      with k comp sets_err_ends [OF s] show False by auto
    qed
  qed
  from j have "exec grace ?T [] Alive ?g = Joined g Alive"
    by (simp add: run_workers_def)
  from exec_slot [OF this noerr] i have slot: "insErrs g ! i = None" by simp
  from j l cells slot show ?thesis by blast
qed

lemma build_row_length: "build_row w ins ds = Ok row \<Longrightarrow> length row = length ds"
  by (induction ds arbitrary: row) (auto split: option.splits sum.splits res.splits)

lemma build_rows_shape:
  "build_rows w dsopts cap i inss = Ok rows \<Longrightarrow>
   length rows = length inss \<and> (\<forall>row\<in>set rows. length row = length dsopts)"
  by (induction inss arbitrary: i rows)
     (auto split: if_splits res.splits dest: build_row_length)

lemma build_datasets_shape:
  "build_datasets w opt instances = Ok datasets \<Longrightarrow>
   length datasets = length instances \<and> (\<forall>row\<in>set datasets. length row = length (Datasets opt))"
  unfolding build_datasets_def by (rule build_rows_shape)

text \<open>
  Collector indexing: with a non-zero divisor and no failure on any instance, the run
  hands the report a collector with \<open>N\<close> observations in every cell and returns what
  the report returns, with every instance closed.
\<close>

lemma run_without_failures_full:
  assumes "ReadFile w confPath = Inr content"
    and "DecodeOption w content = Inr opt"
    and "ConnectToInstances w (Instances opt) = (instances, None)"
    and "build_datasets w opt instances = Ok datasets"
    and labels: "length instances \<le> length (Instances opt)"
    and safe: "progress_safe (N opt)"
    and contract: "\<forall>row\<in>set datasets. \<forall>ds\<in>set row. gen_contract opt ds"
    and ok: "\<forall>i<length instances. no_failures w opt (instances ! i) (datasets ! i)"
  shows "\<exists>g. run_workers w opt instances datasets sched grace = Joined g Alive \<and>
             (\<forall>i<length instances. \<forall>d<length (Datasets opt). \<forall>t<length (QueryTypes opt).
                length (collector g ! i ! d ! t) = nat (N opt)) \<and>
             RunCETestWithConfig w sched grace confPath =
               Return (GenPErrorBarChartsReport w opt (collector g)) [0..<length instances]"
proof -
  let ?I = "length instances" and ?D = "length (Datasets opt)" and ?Q = "length (QueryTypes opt)"
  note shape = build_datasets_shape [OF assms(4)]
  from shape have s1: "length datasets = ?I" and s2: "\<forall>row\<in>set datasets. length row = ?D"
    by simp_all
  obtain g where j: "run_workers w opt instances datasets sched grace = Joined g Alive"
    and l: "length (insErrs g) = ?I"
    using workers_join_when_safe [OF s1 s2 labels safe contract, of w sched grace] by blast
  have each: "insErrs g ! i = None \<and>
             (\<forall>d<?D. \<forall>t<?Q. length (collector g ! i ! d ! t) = nat (N opt))"
    if i: "i < ?I" for i
  proof -
    from ok i have "no_failures w opt (instances ! i) (datasets ! i)" by simp
    from instance_without_failures_full [OF s1 s2 labels safe contract i this, of sched grace] j
    show ?thesis by auto
  qed
  have cells: "\<forall>i<?I. \<forall>d<?D. \<forall>t<?Q. length (collector g ! i ! d ! t) = nat (N opt)"
    using each by blast
  have "\<forall>i<length (insErrs g). insErrs g ! i = None"
    using each l by simp
  then have "first_err (insErrs g) = None"
    by (simp add: first_err_None)
  with assms(1-4) j have "RunCETestWithConfig w sched grace confPath =
      Return (GenPErrorBarChartsReport w opt (collector g)) [0..<?I]"
    by (simp add: RunCETestWithConfig_def finish_def)
  with j cells show ?thesis by blast
qed

text \<open>The grid of two instances, two datasets and two query types with \<open>N = 20\<close>.\<close>

lemma gen_contract_dataset_of: "gen_contract opt (dataset_of d)"
  by (simp add: gen_contract_def dataset_of_def)

lemma no_failures_scenario:
  assumes "InsLabel inst \<noteq> ''down''" and "\<forall>ds\<in>set row. \<exists>d. ds = dataset_of d"
  shows "no_failures (scenario c) opt (instance_of inst) row"
  using assms
  by (auto simp: no_failures_def dataset_of_def runOneEstCase_def instance_of_def
      plan_rows_def close_rows_def scenario_def Let_def)

lemma no_failures_echo:
  assumes "\<forall>ds\<in>set row. \<exists>d. ds = dataset_of d"
  shows "no_failures (echo c) opt (echo_instance inst) row"
  using assms
  by (auto simp: no_failures_def dataset_of_def runOneEstCase_def echo_instance_def
      close_rows_def echo_def scenario_def Let_def)

lemma grid_20_completes:
  "\<exists>g. run_workers (scenario cfg_grid_20) cfg_grid_20 (instances_of cfg_grid_20)
          (datasets_of cfg_grid_20) sched grace = Joined g Alive \<and>
       (\<forall>i<2. \<forall>d<2. \<forall>t<2. length (collector g ! i ! d ! t) = 20) \<and>
       RunCETestWithConfig (scenario cfg_grid_20) sched grace ''conf.toml'' = Return None [0, 1]"
proof -
  let ?w = "scenario cfg_grid_20"
  let ?is = "instances_of cfg_grid_20"
  let ?ds = "datasets_of cfg_grid_20"
  have d: "DecodeOption ?w ''conf'' = Inr cfg_grid_20" by code_simp
  have b: "build_datasets ?w cfg_grid_20 ?is = Ok ?ds"
    by (simp add: build_datasets_def cfg_grid_20_def config_def scenario_def datasetMap_def
        instances_of_def datasets_of_def)
  have l: "length ?is \<le> length (Instances cfg_grid_20)" by (simp add: instances_of_def)
  have s: "progress_safe (N cfg_grid_20)"
    by (simp add: progress_safe_def cfg_grid_20_def config_def)
  have k: "\<forall>row\<in>set ?ds. \<forall>ds\<in>set row. gen_contract cfg_grid_20 ds"
    by (auto simp: datasets_of_def gen_contract_dataset_of)
  have o: "\<forall>i<length ?is. no_failures ?w cfg_grid_20 (?is ! i) (?ds ! i)"
    by (auto simp: cfg_grid_20_def config_def instances_of_def datasets_of_def less_Suc_eq
        intro!: no_failures_scenario)
  have n: "length ?is = 2" "length (Datasets cfg_grid_20) = 2" "length (QueryTypes cfg_grid_20) = 2"
    "nat (N cfg_grid_20) = 20"
    "GenPErrorBarChartsReport ?w cfg_grid_20 = (\<lambda>c. None)"
    by (simp_all add: cfg_grid_20_def config_def scenario_def instances_of_def)
  have u: "[0..<2] = [0, 1 :: nat]" by (simp add: upt_rec)
  from run_without_failures_full [OF e2e_phases(1) d e2e_phases(2) b l s k o, of sched grace]
  show ?thesis unfolding n u .
qed

text \<open>
  Two instances with \<open>N = 20\<close>, every statement failing on instance 0: under every
  schedule the workers join, and instance 1 has no recorded error and its twenty
  observations.
\<close>

lemma one_down_20_isolated:
  "\<exists>g. run_workers (scenario cfg_one_down_20) cfg_one_down_20
          (instances_of cfg_one_down_20) (datasets_of cfg_one_down_20) sched grace
        = Joined g Alive \<and>
       insErrs g ! 1 = None \<and> length (collector g ! 1 ! 0 ! 0) = 20"
proof -
  let ?w = "scenario cfg_one_down_20"
  let ?is = "instances_of cfg_one_down_20"
  let ?ds = "datasets_of cfg_one_down_20"
  have a: "length ?ds = length ?is" "\<forall>row\<in>set ?ds. length row = length (Datasets cfg_one_down_20)"
    "length ?is \<le> length (Instances cfg_one_down_20)"
    by (simp_all add: cfg_one_down_20_def config_def instances_of_def datasets_of_def)
  have s: "progress_safe (N cfg_one_down_20)"
    by (simp add: progress_safe_def cfg_one_down_20_def config_def)
  have k: "\<forall>row\<in>set ?ds. \<forall>ds\<in>set row. gen_contract cfg_one_down_20 ds"
    by (auto simp: datasets_of_def gen_contract_dataset_of)
  have i: "1 < length ?is" by (simp add: cfg_one_down_20_def config_def instances_of_def)
  have o: "no_failures ?w cfg_one_down_20 (?is ! 1) (?ds ! 1)"
    by (auto simp: cfg_one_down_20_def config_def instances_of_def datasets_of_def
        intro!: no_failures_scenario)
  have n: "length (Datasets cfg_one_down_20) = 1" "length (QueryTypes cfg_one_down_20) = 1"
    "nat (N cfg_one_down_20) = 20"
    by (simp_all add: cfg_one_down_20_def config_def)
  from instance_without_failures_full [OF a s k i o, of sched grace]
  show ?thesis unfolding n by auto
qed

subsection \<open>The order of the cases in the shared state\<close>

lemma concat_map_filter:
  "\<forall>e. f e \<noteq> [] \<longrightarrow> P e \<Longrightarrow> concat (map f (filter P es)) = concat (map f es)"
  by (induction es) auto

lemma projection_prefix:
  assumes "prefix es1 T" and "\<forall>e. f e \<noteq> [] \<longrightarrow> P e" and "prefix (filter P T) X"
  shows "prefix (concat (map f es1)) (concat (map f X))"
proof -
  from assms(1) have "prefix (filter P es1) (filter P T)"
    by (auto simp: prefix_def)
  from this assms(3) have "prefix (filter P es1) X"
    by (rule prefix_order.trans)
  then have "prefix (concat (map f (filter P es1))) (concat (map f X))"
    by (rule prefix_concat_map)
  with assms(2) show ?thesis
    by (simp add: concat_map_filter)
qed

lemma added_case_effects:
  "concat (map (added i d t) (concat (map (case_effects w ins i) cs))) =
   concat (map (cell_result w ins d t) cs)"
  by (induction cs) (auto split: sum.splits)

lemma sent_to_case_effects:
  "concat (map (sent_to i) (concat (map (case_effects w ins i) cs))) = map statement cs"
  by (induction cs) (auto split: sum.splits)

lemma added_is_case: "\<forall>e. added i d t e \<noteq> [] \<longrightarrow> case_effect_of i e"
proof
  fix e :: "'a effect" show "added i d t e \<noteq> [] \<longrightarrow> case_effect_of i e"
    by (cases e) auto
qed

lemma sent_to_is_case: "\<forall>e. sent_to i e \<noteq> [] \<longrightarrow> case_effect_of i (e :: 'a effect)"
proof
  fix e :: "'a effect" show "sent_to i e \<noteq> [] \<longrightarrow> case_effect_of i e"
    by (cases e) auto
qed

text \<open>
  C9.  Take any schedule of the workers of a run, any time the process lives after a
  panic, and an instance \<open>insIdx\<close>.  The configured order is: the datasets in the order
  of the configuration, for each the query types in the order of the configuration, for
  each the generated cases in their order.  In the sequence of all effects of the run,
  those that send a statement to the instance or add a result under its index are, in
  this order, a prefix of: for each case in the configured order, the statement of the
  case sent, then the result of the case added to the cell of the case.  In the state in
  which the workers end, the statements the instance has received are a prefix of the
  statements of the cases in the configured order, and each cell of the instance holds a
  prefix of the results of the cases of that cell, in the configured order.  When the
  worker of the instance does not end early (it stores no error and does not panic), the
  sequence of its effects is the whole of that sequence, not only a prefix; and when in
  addition the workers have joined, the instance has received exactly the statements of
  all cases in the configured order, and each of its cells holds exactly the results of
  its cases, in the configured order.
\<close>

theorem C9_order:
  assumes "insIdx < length instances"
  shows "prefix
           (filter (case_effect_of insIdx)
              (interleave sched (map (worker w opt instances datasets) [0..<length instances])))
           (concat (map (case_effects w (instances ! insIdx) insIdx)
              (case_order opt (datasets ! insIdx)))) \<and>
         prefix
           (received insIdx (final (run_workers w opt instances datasets sched grace)))
           (map statement (case_order opt (datasets ! insIdx))) \<and>
         (\<forall>d<length (Datasets opt). \<forall>t<length (QueryTypes opt).
            prefix
              (collector (final (run_workers w opt instances datasets sched grace)) ! insIdx ! d ! t)
              (concat (map (cell_result w (instances ! insIdx) d t)
                 (case_order opt (datasets ! insIdx))))) \<and>
         ((\<forall>e\<in>set (worker w opt instances datasets insIdx). \<not> ends_worker e) \<longrightarrow>
            filter (case_effect_of insIdx)
              (interleave sched (map (worker w opt instances datasets) [0..<length instances])) =
            concat (map (case_effects w (instances ! insIdx) insIdx)
              (case_order opt (datasets ! insIdx))) \<and>
            (joined (run_workers w opt instances datasets sched grace) \<longrightarrow>
               received insIdx (final (run_workers w opt instances datasets sched grace)) =
                 map statement (case_order opt (datasets ! insIdx)) \<and>
               (\<forall>d<length (Datasets opt). \<forall>t<length (QueryTypes opt).
                  collector (final (run_workers w opt instances datasets sched grace))
                    ! insIdx ! d ! t =
                  concat (map (cell_result w (instances ! insIdx) d t)
                    (case_order opt (datasets ! insIdx))))))"
proof -
  let ?D = "length (Datasets opt)" and ?Q = "length (QueryTypes opt)"
  let ?T = "interleave sched (map (worker w opt instances datasets) [0..<length instances])"
  let ?W = "worker w opt instances datasets insIdx"
  let ?C = "case_order opt (datasets ! insIdx)"
  let ?X = "concat (map (case_effects w (instances ! insIdx) insIdx) ?C)"
  let ?R = "run_workers w opt instances datasets sched grace"
  have proj: "filter (case_effect_of insIdx) ?T = filter (case_effect_of insIdx) ?W"
    using assms by (rule workers_projection) (simp add: case_effect_goroutine)
  have wo: "prefix (filter (case_effect_of insIdx) ?W) ?X"
    by (rule worker_order)
  with proj have order: "prefix (filter (case_effect_of insIdx) ?T) ?X"
    by simp
  have stmts: "prefix (received insIdx (final ?R)) (map statement ?C)"
  proof -
    from run_final [OF assms, of w opt datasets sched grace]
    obtain es1 where es1: "prefix es1 ?W"
      "received insIdx (final ?R) = concat (map (sent_to insIdx) es1)"
      by blast
    from es1(1) sent_to_is_case wo
    have "prefix (concat (map (sent_to insIdx) es1)) (concat (map (sent_to insIdx) ?X))"
      by (rule projection_prefix)
    with es1(2) show ?thesis
      by (simp add: sent_to_case_effects)
  qed
  have cell: "prefix (collector (final ?R) ! insIdx ! d ! t)
      (concat (map (cell_result w (instances ! insIdx) d t) ?C))"
    if dt: "d < ?D" "t < ?Q" for d t
  proof -
    from run_final [OF assms, of w opt datasets sched grace d t] dt
    obtain es2 where es2: "prefix es2 ?W"
      "collector (final ?R) ! insIdx ! d ! t = concat (map (added insIdx d t) es2)"
      by auto
    from es2(1) added_is_case wo
    have "prefix (concat (map (added insIdx d t) es2)) (concat (map (added insIdx d t) ?X))"
      by (rule projection_prefix)
    with es2(2) show ?thesis
      by (simp add: added_case_effects)
  qed
  have full: "filter (case_effect_of insIdx) ?T = ?X \<and>
      (joined ?R \<longrightarrow>
         received insIdx (final ?R) = map statement ?C \<and>
         (\<forall>d<?D. \<forall>t<?Q. collector (final ?R) ! insIdx ! d ! t =
            concat (map (cell_result w (instances ! insIdx) d t) ?C)))"
    if comp: "\<forall>e\<in>set ?W. \<not> ends_worker e"
  proof -
    from worker_order_full [OF comp] have wx: "filter (case_effect_of insIdx) ?W = ?X" .
    from comp have np: "\<forall>e\<in>set ?W. \<not> is_Panic e"
      using panic_ends by blast
    have state: "received insIdx (final ?R) = map statement ?C \<and>
         (\<forall>d<?D. \<forall>t<?Q. collector (final ?R) ! insIdx ! d ! t =
            concat (map (cell_result w (instances ! insIdx) d t) ?C))"
      if "joined ?R"
    proof -
      from that obtain g f where j: "?R = Joined g f"
        by (cases ?R) simp_all
      note rj = run_joined [OF j assms np]
      from rj [of 0 0] have "received insIdx g = concat (map (sent_to insIdx) ?W)"
        by simp
      also have "\<dots> = concat (map (sent_to insIdx) (filter (case_effect_of insIdx) ?W))"
        by (rule concat_map_filter [OF sent_to_is_case, symmetric])
      also have "\<dots> = map statement ?C"
        unfolding wx by (rule sent_to_case_effects)
      finally have r: "received insIdx (final ?R) = map statement ?C"
        by (simp add: j)
      have "collector (final ?R) ! insIdx ! d ! t =
            concat (map (cell_result w (instances ! insIdx) d t) ?C)"
        if dt: "d < ?D" "t < ?Q" for d t
      proof -
        from rj [of d t] dt
        have "collector g ! insIdx ! d ! t = concat (map (added insIdx d t) ?W)"
          by simp
        also have "\<dots> = concat (map (added insIdx d t) (filter (case_effect_of insIdx) ?W))"
          by (rule concat_map_filter [OF added_is_case, symmetric])
        also have "\<dots> = concat (map (cell_result w (instances ! insIdx) d t) ?C)"
          unfolding wx by (rule added_case_effects)
        finally show ?thesis by (simp add: j)
      qed
      with r show ?thesis by blast
    qed
    from proj wx state show ?thesis by simp
  qed
  from order stmts cell full show ?thesis
    by blast
qed

text \<open>
  Two instances, the datasets mock and tpcc, two query types and twenty cases for each
  pair, every case with its own statement and its own result (the number of characters
  of the statement): instance 1 has received the eighty statements in the configured
  order, the cell \<open>(1,1,1)\<close> holds the twenty results of its cases in the order of the
  case index, and one hundred and sixty effects, a statement and a result for each
  case, concern the instance.
\<close>

theorem C9_order_witness:
  "received 1 (final (run_workers (echo cfg_grid_20) cfg_grid_20
      (map echo_instance (Instances cfg_grid_20)) (datasets_of cfg_grid_20)
      [1, 0, 0, 1, 1, 0, 1] 0)) =
     concat (map (\<lambda>name. concat (map (\<lambda>qt.
         map (\<lambda>j. ''EXPLAIN ANALYZE '' @ case_query name qt j) [0..<20])
       [QTSingleColPointQuery, QTGroup])) [''mock'', ''tpcc'']) \<and>
   collector (final (run_workers (echo cfg_grid_20) cfg_grid_20
      (map echo_instance (Instances cfg_grid_20)) (datasets_of cfg_grid_20)
      [1, 0, 0, 1, 1, 0, 1] 0)) ! 1 ! 1 ! 1 =
     map (\<lambda>j. (55 + j, 55 + j)) [0..<20] \<and>
   length (filter (case_effect_of 1)
      (interleave [1, 0, 0, 1, 1, 0, 1]
         (map (worker (echo cfg_grid_20) cfg_grid_20
                (map echo_instance (Instances cfg_grid_20)) (datasets_of cfg_grid_20))
            [0..<length (map echo_instance (Instances cfg_grid_20))]))) = 160"
proof -
  let ?w = "echo cfg_grid_20"
  let ?is = "map echo_instance (Instances cfg_grid_20)"
  let ?ds = "datasets_of cfg_grid_20"
  let ?s = "[1, 0, 0, 1, 1, 0, 1] :: nat list"
  let ?R = "run_workers ?w cfg_grid_20 ?is ?ds ?s 0"
  have i: "1 < length ?is" by (simp add: cfg_grid_20_def config_def)
  have a: "length ?ds = length ?is" "\<forall>row\<in>set ?ds. length row = length (Datasets cfg_grid_20)"
    "length ?is \<le> length (Instances cfg_grid_20)"
    by (simp_all add: datasets_of_def)
  have r: "length (?ds ! 1) = length (Datasets cfg_grid_20)"
    by (simp add: datasets_of_def cfg_grid_20_def config_def)
  have p: "progress_safe (N cfg_grid_20)"
    by (simp add: progress_safe_def cfg_grid_20_def config_def)
  have k: "\<forall>row\<in>set ?ds. \<forall>ds\<in>set row. gen_contract cfg_grid_20 ds"
    by (auto simp: datasets_of_def gen_contract_dataset_of)
  have o: "no_failures ?w cfg_grid_20 (?is ! 1) (?ds ! 1)"
    by (auto simp: cfg_grid_20_def config_def datasets_of_def intro!: no_failures_echo)
  have comp: "\<forall>e\<in>set (worker ?w cfg_grid_20 ?is ?ds 1). \<not> ends_worker e"
    using i r a(3) p o by (rule worker_completes)
  have j: "joined ?R"
    using workers_join_when_safe [OF a p k, of ?w ?s 0] by auto
  have d: "(1::nat) < length (Datasets cfg_grid_20)" "(1::nat) < length (QueryTypes cfg_grid_20)"
    by (simp_all add: cfg_grid_20_def config_def)
  have s: "map statement (case_order cfg_grid_20 (?ds ! 1)) =
     concat (map (\<lambda>name. concat (map (\<lambda>qt.
         map (\<lambda>j. ''EXPLAIN ANALYZE '' @ case_query name qt j) [0..<20])
       [QTSingleColPointQuery, QTGroup])) [''mock'', ''tpcc''])"
    by code_simp
  have c: "concat (map (cell_result ?w (?is ! 1) 1 1) (case_order cfg_grid_20 (?ds ! 1))) =
     map (\<lambda>j. (55 + j, 55 + j)) [0..<20]"
    by code_simp
  have e: "length (concat (map (case_effects ?w (?is ! 1) 1) (case_order cfg_grid_20 (?ds ! 1))))
      = 160"
    by code_simp
  from C9_order [OF i, of ?s ?w cfg_grid_20 ?ds 0] comp j
  have t: "filter (case_effect_of 1)
        (interleave ?s (map (worker ?w cfg_grid_20 ?is ?ds) [0..<length ?is])) =
      concat (map (case_effects ?w (?is ! 1) 1) (case_order cfg_grid_20 (?ds ! 1)))"
    and u: "received 1 (final ?R) = map statement (case_order cfg_grid_20 (?ds ! 1))"
    and v: "\<forall>d<length (Datasets cfg_grid_20). \<forall>t<length (QueryTypes cfg_grid_20).
        collector (final ?R) ! 1 ! d ! t =
        concat (map (cell_result ?w (?is ! 1) d t) (case_order cfg_grid_20 (?ds ! 1)))"
    by blast+
  from v d have "collector (final ?R) ! 1 ! 1 ! 1 =
      concat (map (cell_result ?w (?is ! 1) 1 1) (case_order cfg_grid_20 (?ds ! 1)))"
    by blast
  from this c have v1: "collector (final ?R) ! 1 ! 1 ! 1 = map (\<lambda>j. (55 + j, 55 + j)) [0..<20]"
    by (rule trans)
  from u s have u1: "received 1 (final ?R) =
     concat (map (\<lambda>name. concat (map (\<lambda>qt.
         map (\<lambda>j. ''EXPLAIN ANALYZE '' @ case_query name qt j) [0..<20])
       [QTSingleColPointQuery, QTGroup])) [''mock'', ''tpcc''])"
    by (rule trans)
  have t1: "length (filter (case_effect_of 1)
        (interleave ?s (map (worker ?w cfg_grid_20 ?is ?ds) [0..<length ?is]))) = 160"
    unfolding t by (rule e)
  from u1 v1 t1 show ?thesis by (intro conjI)
qed

end
